theory Spec2Isabelle
  imports
    Main
    "HOL-Library.Char_ord"
    "HOL-Library.List_Lexorder"
    "HOL-Library.Product_Lexorder"
begin

section \<open>JavaScript values\<close>

text \<open>
  Strings are lists of characters ordered by character code; lists are ordered
  lexicographically (a proper prefix sorts first), which is the order Redis uses for the
  members of a sorted set that share a score. Isabelle's \<^typ>\<open>char\<close> has codes 0 to 255,
  so \<open>fromCharCode\<close> reduces modulo 256 where JavaScript reduces modulo 65536; the two
  agree on every code the autocomplete program meets for lowercase input (96 to 123).
\<close>

datatype error =
    TypeError       \<comment> \<open>a method call on \<open>undefined\<close>\<close>
  | WrongType       \<comment> \<open>Redis: the key holds a value of another kind\<close>
  | NotAnInteger    \<comment> \<open>Redis: the value is not an integer\<close>
  | Overflow        \<comment> \<open>Redis: increment would overflow\<close>
  | LookupFailed    \<comment> \<open>\<open>new Error("failed to find similar word")\<close>\<close>
  | ZodError        \<comment> \<open>\<open>articleSchema.parse\<close> refused the object\<close>

definition charCode :: "char \<Rightarrow> int" where
  "charCode c = int (of_char c)"

definition fromCharCode :: "int \<Rightarrow> char" where
  "fromCharCode n = char_of (nat (n mod 256))"

text \<open>A JavaScript number that holds an integer, or \<open>NaN\<close>.\<close>

datatype number = NaN | Num int

text \<open>
  JavaScript numbers are doubles. An integer between \<open>-2^53\<close> and \<open>2^53\<close> is a number as it
  is; a larger one is rounded to the nearest number, which has 53 significant bits, and a
  tie goes to the one whose last bit is 0. \<open>toNumber\<close> is the number the client resolves
  an integer reply of Redis to.
\<close>

fun bit_length :: "nat \<Rightarrow> nat" where
  "bit_length n = (if n = 0 then 0 else Suc (bit_length (n div 2)))"

declare bit_length.simps [simp del]

definition nearest_double :: "nat \<Rightarrow> nat" where
  "nearest_double n =
     (let ulp = 2 ^ (bit_length n - 53);
          q = n div ulp;
          r = n mod ulp
      in if ulp < 2 * r \<or> (ulp = 2 * r \<and> odd q) then (q + 1) * ulp else q * ulp)"

definition toNumber :: "int \<Rightarrow> int" where
  "toNumber n =
     (if \<bar>n\<bar> \<le> 2 ^ 53 then n
      else if n < 0 then - int (nearest_double (nat (- n)))
      else int (nearest_double (nat n)))"

text \<open>Decimal text of an integer: the text Redis stores for an integer, and the text of a
  JavaScript number that holds an integer up to \<open>2^53\<close> in magnitude.\<close>

definition digit_char :: "nat \<Rightarrow> char" where
  "digit_char d = ''0123456789'' ! d"

fun decimal :: "nat \<Rightarrow> string" where
  "decimal n = (if n div 10 = 0 then [] else decimal (n div 10)) @ [digit_char (n mod 10)]"

declare decimal.simps [simp del]

definition toString :: "int \<Rightarrow> string" where
  "toString i = (if i < 0 then CHR ''-'' # decimal (nat (- i)) else decimal (nat i))"

text \<open>
  The text of a number, as a template literal and the client's conversion of a numeric
  argument give it, for a number that holds an integer below \<open>10^21\<close>. Up to \<open>2^53\<close> it is
  the decimal text of the integer. Beyond, it has the fewest significant digits that still
  read back as the same number, followed by zeros; of two such texts the nearer to the
  number is taken, and of two equally near the one with the even last digit.
\<close>

fun shortest_decimal :: "nat \<Rightarrow> nat \<Rightarrow> nat" where
  "shortest_decimal 0 v = v"
| "shortest_decimal (Suc z) v =
     (let p = 10 ^ Suc z;
          lo = (v div p) * p;
          hi = lo + p;
          ok_lo = (nearest_double lo = v);
          ok_hi = (nearest_double hi = v)
      in if ok_lo \<and> ok_hi
         then (if v - lo < hi - v then lo
               else if hi - v < v - lo then hi
               else if even (v div p) then lo else hi)
         else if ok_lo then lo
         else if ok_hi then hi
         else shortest_decimal z v)"

definition numberToString :: "int \<Rightarrow> string" where
  "numberToString v =
     (if \<bar>v\<bar> \<le> 2 ^ 53 then toString v
      else if v < 0 then CHR ''-'' # decimal (shortest_decimal 20 (nat (- v)))
      else decimal (shortest_decimal 20 (nat v)))"

definition digit_value :: "char \<Rightarrow> nat option" where
  "digit_value c =
     (let n = (of_char c :: nat) in
      if 48 \<le> n \<and> n \<le> 57 then Some (n - 48)
      else if 97 \<le> n \<and> n \<le> 122 then Some (n - 87)
      else if 65 \<le> n \<and> n \<le> 90 then Some (n - 55)
      else None)"

definition is_digit_in :: "nat \<Rightarrow> char \<Rightarrow> bool" where
  "is_digit_in radix c = (case digit_value c of Some d \<Rightarrow> d < radix | None \<Rightarrow> False)"

definition digits_value :: "nat \<Rightarrow> string \<Rightarrow> nat" where
  "digits_value radix ds =
     foldl (\<lambda>acc c. acc * radix + (case digit_value c of Some d \<Rightarrow> d | None \<Rightarrow> 0)) 0 ds"

definition white_space :: "char \<Rightarrow> bool" where
  "white_space c = ((of_char c :: nat) \<in> {9, 10, 11, 12, 13, 32})"

text \<open>\<open>parseInt(s)\<close> with no radix: leading white space is skipped, a sign is read, a
  prefix \<open>0x\<close> selects radix 16, and the longest run of digits is the value; no digit
  gives \<open>NaN\<close>. The value is kept as the integer the digits spell, which is the number
  JavaScript gives up to \<open>2^53\<close>; the timestamps and the vote counts of this program are
  below.\<close>

definition parseInt :: "string \<Rightarrow> number" where
  "parseInt s =
     (let s1 = dropWhile white_space s;
          neg = (s1 \<noteq> [] \<and> hd s1 = CHR ''-'');
          s2 = (if s1 \<noteq> [] \<and> (hd s1 = CHR ''-'' \<or> hd s1 = CHR ''+'') then tl s1 else s1);
          hex = (take 2 s2 = ''0x'' \<or> take 2 s2 = ''0X'');
          radix = (if hex then 16 else 10);
          s3 = (if hex then drop 2 s2 else s2);
          ds = takeWhile (is_digit_in radix) s3
      in if ds = [] then NaN
         else Num ((if neg then - 1 else 1) * int (digits_value radix ds)))"

section \<open>The Redis store\<close>

text \<open>
  One keyspace; a key holds a string, a hash, a set or a sorted set, and a command on a
  key of another kind fails with \<open>WRONGTYPE\<close>. A sorted set is the list of its
  (score, member) pairs in ascending order of score, then of member. Scores are integers
  here (Redis keeps doubles, exact on the integers this program stores). Redis removes a
  key when its collection becomes empty.
\<close>

datatype rvalue =
    RString string
  | RHash "string \<Rightarrow> string option"
  | RSet "string set"
  | RZSet "(int \<times> string) list"

type_synonym store = "string \<Rightarrow> rvalue option"

text \<open>A command runs on the store and resolves to a value or rejects with an error;
  the store it leaves is kept in both cases.\<close>

type_synonym 'a cmd = "store \<Rightarrow> (error + 'a) \<times> store"

definition resolve :: "'a \<Rightarrow> 'a cmd" where
  "resolve x = (\<lambda>st. (Inr x, st))"

definition reject :: "error \<Rightarrow> 'a cmd" where
  "reject e = (\<lambda>st. (Inl e, st))"

text \<open>\<open>const x = await m; f x\<close>: a rejection of \<open>m\<close> is thrown past \<open>f\<close>.\<close>

definition await :: "'a cmd \<Rightarrow> ('a \<Rightarrow> 'b cmd) \<Rightarrow> 'b cmd" where
  "await m f = (\<lambda>st. case m st of (Inl e, st') \<Rightarrow> (Inl e, st') | (Inr x, st') \<Rightarrow> f x st')"

text \<open>What other clients of the same store do while a command of this one is pending.\<close>

definition interleave :: "(store \<Rightarrow> store) \<Rightarrow> 'a cmd \<Rightarrow> 'a cmd" where
  "interleave other m = (\<lambda>st. m (other st))"

definition no_others :: "nat \<Rightarrow> store \<Rightarrow> store" where
  "no_others i = (\<lambda>st. st)"

subsection \<open>Strict integers of Redis\<close>

text \<open>\<open>string2ll\<close>: an optional minus sign and decimal digits, no leading zero, no
  \<open>-0\<close>, within 64 bits.\<close>

definition string2ll :: "string \<Rightarrow> int option" where
  "string2ll s =
     (let neg = (s \<noteq> [] \<and> hd s = CHR ''-'');
          ds = (if neg then tl s else s);
          n = (if neg then - 1 else 1) * int (digits_value 10 ds)
      in if ds \<noteq> [] \<and> list_all (is_digit_in 10) ds \<and> toString n = s
            \<and> - (2 ^ 63) \<le> n \<and> n < 2 ^ 63
         then Some n else None)"

text \<open>\<open>client.incr\<close>: Redis keeps the exact integer as decimal text, and the client resolves
  to the integer of the reply as a JavaScript number.\<close>

definition incr :: "string \<Rightarrow> int cmd" where
  "incr key = (\<lambda>st.
     case st key of
       None \<Rightarrow> (Inr (toNumber 1), st(key \<mapsto> RString (toString 1)))
     | Some (RString s) \<Rightarrow>
         (case string2ll s of
            None \<Rightarrow> (Inl NotAnInteger, st)
          | Some n \<Rightarrow>
              if n + 1 < 2 ^ 63
              then (Inr (toNumber (n + 1)), st(key \<mapsto> RString (toString (n + 1))))
              else (Inl Overflow, st))
     | Some _ \<Rightarrow> (Inl WrongType, st))"

definition del :: "string \<Rightarrow> unit cmd" where
  "del key = (\<lambda>st. (Inr (), st(key := None)))"

subsection \<open>Hashes and sets\<close>

definition hSet :: "string \<Rightarrow> (string \<times> string) list \<Rightarrow> unit cmd" where
  "hSet key fields = (\<lambda>st.
     case st key of
       None \<Rightarrow> (Inr (), st(key \<mapsto> RHash (map_of (rev fields))))
     | Some (RHash h) \<Rightarrow> (Inr (), st(key \<mapsto> RHash (h ++ map_of (rev fields))))
     | Some _ \<Rightarrow> (Inl WrongType, st))"

definition hIncrBy :: "string \<Rightarrow> string \<Rightarrow> int \<Rightarrow> int cmd" where
  "hIncrBy key field delta = (\<lambda>st.
     case st key of
       None \<Rightarrow> (Inr (toNumber delta), st(key \<mapsto> RHash [field \<mapsto> toString delta]))
     | Some (RHash h) \<Rightarrow>
         (case (case h field of None \<Rightarrow> Some 0 | Some s \<Rightarrow> string2ll s) of
            None \<Rightarrow> (Inl NotAnInteger, st)
          | Some n \<Rightarrow>
              if - (2 ^ 63) \<le> n + delta \<and> n + delta < 2 ^ 63
              then (Inr (toNumber (n + delta)),
                    st(key \<mapsto> RHash (h(field \<mapsto> toString (n + delta)))))
              else (Inl Overflow, st))
     | Some _ \<Rightarrow> (Inl WrongType, st))"

definition hGetAll :: "string \<Rightarrow> (string \<Rightarrow> string option) cmd" where
  "hGetAll key = (\<lambda>st.
     case st key of
       None \<Rightarrow> (Inr Map.empty, st)
     | Some (RHash h) \<Rightarrow> (Inr h, st)
     | Some _ \<Rightarrow> (Inl WrongType, st))"

definition sAdd :: "string \<Rightarrow> string \<Rightarrow> unit cmd" where
  "sAdd key member = (\<lambda>st.
     case st key of
       None \<Rightarrow> (Inr (), st(key \<mapsto> RSet {member}))
     | Some (RSet s) \<Rightarrow> (Inr (), st(key \<mapsto> RSet (insert member s)))
     | Some _ \<Rightarrow> (Inl WrongType, st))"

subsection \<open>Sorted sets\<close>

definition zset_remove :: "string \<Rightarrow> (int \<times> string) list \<Rightarrow> (int \<times> string) list" where
  "zset_remove member z = filter (\<lambda>e. snd e \<noteq> member) z"

definition zset_insert :: "int \<Rightarrow> string \<Rightarrow> (int \<times> string) list \<Rightarrow> (int \<times> string) list" where
  "zset_insert score member z = insort (score, member) (zset_remove member z)"

fun zset_score :: "(int \<times> string) list \<Rightarrow> string \<Rightarrow> int option" where
  "zset_score [] member = None"
| "zset_score (e # z) member = (if snd e = member then Some (fst e) else zset_score z member)"

fun zset_rank :: "(int \<times> string) list \<Rightarrow> string \<Rightarrow> int option" where
  "zset_rank [] member = None"
| "zset_rank (e # z) member =
     (if snd e = member then Some 0 else map_option (\<lambda>i. i + 1) (zset_rank z member))"

text \<open>Ranks \<open>start\<close> to \<open>stop\<close>, both included; a negative rank counts from the end.\<close>

definition zset_range :: "'a list \<Rightarrow> int \<Rightarrow> int \<Rightarrow> 'a list" where
  "zset_range z start stop =
     (let llen = int (length z);
          start1 = (if start < 0 then llen + start else start);
          stop1 = (if stop < 0 then llen + stop else stop);
          start2 = (if start1 < 0 then 0 else start1)
      in if start2 > stop1 \<or> start2 \<ge> llen then []
         else (let stop2 = (if stop1 \<ge> llen then llen - 1 else stop1)
               in take (nat (stop2 - start2 + 1)) (drop (nat start2) z)))"

definition zCard :: "string \<Rightarrow> int cmd" where
  "zCard key = (\<lambda>st.
     case st key of
       None \<Rightarrow> (Inr 0, st)
     | Some (RZSet z) \<Rightarrow> (Inr (int (length z)), st)
     | Some _ \<Rightarrow> (Inl WrongType, st))"

definition zAdd :: "string \<Rightarrow> int \<Rightarrow> string \<Rightarrow> unit cmd" where
  "zAdd key score member = (\<lambda>st.
     case st key of
       None \<Rightarrow> (Inr (), st(key \<mapsto> RZSet [(score, member)]))
     | Some (RZSet z) \<Rightarrow> (Inr (), st(key \<mapsto> RZSet (zset_insert score member z)))
     | Some _ \<Rightarrow> (Inl WrongType, st))"

definition zIncrBy :: "string \<Rightarrow> int \<Rightarrow> string \<Rightarrow> int cmd" where
  "zIncrBy key increment member = (\<lambda>st.
     case st key of
       None \<Rightarrow> (Inr increment, st(key \<mapsto> RZSet [(increment, member)]))
     | Some (RZSet z) \<Rightarrow>
         (let score = (case zset_score z member of None \<Rightarrow> 0 | Some s \<Rightarrow> s) + increment
          in (Inr score, st(key \<mapsto> RZSet (zset_insert score member z))))
     | Some _ \<Rightarrow> (Inl WrongType, st))"

definition zRank :: "string \<Rightarrow> string \<Rightarrow> int option cmd" where
  "zRank key member = (\<lambda>st.
     case st key of
       None \<Rightarrow> (Inr None, st)
     | Some (RZSet z) \<Rightarrow> (Inr (zset_rank z member), st)
     | Some _ \<Rightarrow> (Inl WrongType, st))"

definition zRem :: "string \<Rightarrow> string \<Rightarrow> unit cmd" where
  "zRem key member = (\<lambda>st.
     case st key of
       None \<Rightarrow> (Inr (), st)
     | Some (RZSet z) \<Rightarrow>
         (Inr (), if zset_remove member z = [] then st(key := None)
                  else st(key \<mapsto> RZSet (zset_remove member z)))
     | Some _ \<Rightarrow> (Inl WrongType, st))"

definition zRange :: "string \<Rightarrow> int \<Rightarrow> int \<Rightarrow> bool \<Rightarrow> string list cmd" where
  "zRange key start stop REV = (\<lambda>st.
     case st key of
       None \<Rightarrow> (Inr [], st)
     | Some (RZSet z) \<Rightarrow>
         (Inr (map snd (zset_range (if REV then rev z else z) start stop)), st)
     | Some _ \<Rightarrow> (Inl WrongType, st))"

section \<open>Autocomplete\<close>

definition getPrefix :: "string \<Rightarrow> error + string \<times> string" where
  "getPrefix word =
     (if word = [] then Inl TypeError
      else (let lastCh = last word;
                withoutLastCh = butlast word;
                suffix = [fromCharCode (charCode lastCh - 1)];
                end = [fromCharCode (charCode (CHR ''z'') + 1)]
            in Inr (withoutLastCh @ suffix @ end, word @ end)))"

text \<open>
  \<open>getSimilarWords\<close>. The value of \<open>randomUUIDv7()\<close> is the argument \<open>uuid\<close>;
  \<open>others i\<close> is what other clients do to the store before the \<open>i\<close>-th command of this
  call is served (\<open>no_others\<close> when the call runs alone).
\<close>

definition getSimilarWords :: "(nat \<Rightarrow> store \<Rightarrow> store) \<Rightarrow> string \<Rightarrow> string \<Rightarrow> string list cmd" where
  "getSimilarWords others uuid target =
     (case getPrefix target of
        Inl e \<Rightarrow> reject e
      | Inr (start0, end0) \<Rightarrow>
         (let start = start0 @ uuid; end = end0 @ uuid in
          await (interleave (others 0) (zCard ''words:all'')) (\<lambda>wordsLen.
          await (interleave (others 1) (zAdd ''words:all'' 0 start)) (\<lambda>_.
          await (interleave (others 2) (zAdd ''words:all'' 0 end)) (\<lambda>_.
          await (interleave (others 3) (zRank ''words:all'' start)) (\<lambda>startIdx.
          await (interleave (others 4) (zRank ''words:all'' end)) (\<lambda>endIdx.
          (case (startIdx, endIdx) of
             (Some startIdx, Some endIdx) \<Rightarrow>
               (let endIdx = min endIdx (min wordsLen (startIdx + 100)) - 2 in
                await (interleave (others 5) (zRem ''words:all'' start)) (\<lambda>_.
                await (interleave (others 6) (zRem ''words:all'' end)) (\<lambda>_.
                await (interleave (others 7) (zRange ''words:all'' startIdx endIdx False))
                  (\<lambda>similarWords.
                resolve similarWords))))
           | _ \<Rightarrow> reject LookupFailed))))))))"

text \<open>Words of the dictionary: letters \<open>a\<close> to \<open>z\<close> only.\<close>

definition lower_letter :: "char \<Rightarrow> bool" where
  "lower_letter c = (CHR ''a'' \<le> c \<and> c \<le> CHR ''z'')"

definition lowercase :: "string \<Rightarrow> bool" where
  "lowercase w = list_all lower_letter w"

text \<open>The two sentinel members a query inserts, and the members of the index.\<close>

definition startSentinel :: "string \<Rightarrow> string \<Rightarrow> string" where
  "startSentinel uuid target =
     butlast target @ [fromCharCode (charCode (last target) - 1), CHR ''{''] @ uuid"

definition endSentinel :: "string \<Rightarrow> string \<Rightarrow> string" where
  "endSentinel uuid target = target @ ''{'' @ uuid"

definition index_members :: "store \<Rightarrow> string list" where
  "index_members st = (case st ''words:all'' of Some (RZSet z) \<Rightarrow> map snd z | _ \<Rightarrow> [])"

text \<open>\<open>indexes st ws\<close>: the index of \<open>st\<close> holds exactly the lowercase words \<open>ws\<close>, each with
  score 0 as \<open>setDict\<close> adds them (\<open>ws\<close> in ascending order, without repetition).\<close>

definition indexes :: "store \<Rightarrow> string list \<Rightarrow> bool" where
  "indexes st ws =
     (st ''words:all'' = (if ws = [] then None else Some (RZSet (map (Pair 0) ws)))
      \<and> sorted ws \<and> distinct ws \<and> list_all lowercase ws)"

text \<open>How many of the words sort before \<open>x\<close>.\<close>

definition below :: "string \<Rightarrow> string list \<Rightarrow> nat" where
  "below x ws = length (filter (\<lambda>w. w < x) ws)"

text \<open>\<open>flushDict\<close> starts with \<open>client.del("words:all")\<close>; \<open>flush_before n\<close> is another
  client doing so just before command \<open>n\<close> of a query is served.\<close>

definition flush_before :: "nat \<Rightarrow> nat \<Rightarrow> store \<Rightarrow> store" where
  "flush_before n i = (\<lambda>st. if i = n then snd (del ''words:all'' st) else st)"

subsection \<open>Example dictionaries\<close>

definition uuid0 :: string where
  "uuid0 = ''0192ce11-26d5-7dc3-9305-1426de888c5a''"

definition word_store :: "string list \<Rightarrow> store" where
  "word_store ws = [''words:all'' \<mapsto> RZSet (map (Pair 0) ws)]"

definition five_words :: "string list" where
  "five_words = [''cap'', ''car'', ''cat'', ''cats'', ''dog'']"

text \<open>The 104 words \<open>aaa\<close> to \<open>adz\<close>, and \<open>b\<close>.\<close>

definition many_words :: "string list" where
  "many_words =
     concat (map (\<lambda>x. map (\<lambda>y. [CHR ''a'', x, y]) ''abcdefghijklmnopqrstuvwxyz'') ''abcd'')
     @ [''b'']"

section \<open>Articles\<close>

definition SCORE_PER_VOTE :: int where
  "SCORE_PER_VOTE = 432"

definition VOTING_WINDOW :: int where
  "VOTING_WINDOW = 5"

record article =
  id' :: string
  title :: string
  userId :: string
  link :: string
  votes :: number
  timestamp :: number

text \<open>
  \<open>articleSchema.parse\<close> on an object whose values are \<open>undefined\<close>, \<open>null\<close>, strings or
  numbers. \<open>z.string()\<close> accepts a string only: \<open>id\<close>, \<open>title\<close>, \<open>userId\<close>, \<open>link\<close> and
  \<open>timestamp\<close> are required, and keys the schema does not name are dropped.
  \<open>z.string().nullish()\<close> accepts a missing value, \<open>undefined\<close> and \<open>null\<close> as well, and
  \<open>x ? parseInt(x) : 0\<close> gives 0 for these and for the empty string.
\<close>

datatype jsvalue = JUndefined | JNull | JString string | JNumber number

definition z_string :: "jsvalue option \<Rightarrow> string option" where
  "z_string v = (case v of Some (JString s) \<Rightarrow> Some s | _ \<Rightarrow> None)"

definition z_votes :: "jsvalue option \<Rightarrow> number option" where
  "z_votes v =
     (case v of
        None \<Rightarrow> Some (Num 0)
      | Some JUndefined \<Rightarrow> Some (Num 0)
      | Some JNull \<Rightarrow> Some (Num 0)
      | Some (JString x) \<Rightarrow> Some (if x = [] then Num 0 else parseInt x)
      | Some (JNumber n) \<Rightarrow> None)"

definition articleSchema :: "(string \<Rightarrow> jsvalue option) \<Rightarrow> error + article" where
  "articleSchema obj =
     (case (z_string (obj ''id''), z_string (obj ''title''), z_string (obj ''userId''),
            z_string (obj ''link''), z_votes (obj ''votes''), z_string (obj ''timestamp'')) of
        (Some i, Some t, Some u, Some l, Some v, Some ts) \<Rightarrow>
          Inr \<lparr> id' = i, title = t, userId = u, link = l, votes = v,
                timestamp = parseInt ts \<rparr>
      | _ \<Rightarrow> Inl ZodError)"

text \<open>\<open>toArticle\<close>, on the object \<open>hGetAll\<close> returns, whose values are all strings.\<close>

definition toArticle :: "(string \<Rightarrow> string option) \<Rightarrow> error + article" where
  "toArticle obj = articleSchema (\<lambda>k. map_option JString (obj k))"

text \<open>\<open>postArticle\<close>; \<open>now\<close> is the value of \<open>Date.now()\<close>, in milliseconds, an integer of
  at most \<open>8.64 * 10^15\<close> in magnitude, on which the division and the floor are exact. The id is the
  number \<open>client.incr\<close> resolved to, and the key, the field \<open>id\<close>, the member of the two
  indexes and the result are its text.\<close>

definition postArticle :: "int \<Rightarrow> string \<Rightarrow> string \<Rightarrow> string \<Rightarrow> string cmd" where
  "postArticle now = (\<lambda>title link userId.
     await (incr ''article:'') (\<lambda>id.
     (let timestamp = now div 1000 in
      await (hSet (''article:'' @ numberToString id)
               [(''id'', numberToString id), (''title'', title), (''link'', link),
                (''userId'', userId), (''timestamp'', toString timestamp)]) (\<lambda>_.
      await (zAdd ''article:created'' timestamp (numberToString id)) (\<lambda>_.
      await (zAdd ''article:score'' timestamp (numberToString id)) (\<lambda>_.
      resolve (numberToString id)))))))"

definition postVote :: "string \<Rightarrow> string \<Rightarrow> unit cmd" where
  "postVote articleId = (\<lambda>userId.
     await (sAdd (''article:voted:'' @ articleId) userId) (\<lambda>_.
     await (zIncrBy ''article:score'' 432 articleId) (\<lambda>_.
     await (hIncrBy (''article:'' @ articleId) ''votes'' 1) (\<lambda>_.
     resolve ()))))"

definition updateArticleGroups :: "string \<Rightarrow> string list \<Rightarrow> string list \<Rightarrow> bool cmd" where
  "updateArticleGroups articleId addToGroups removeFromGroups = resolve False"

text \<open>\<open>Promise.all\<close> over commands issued in order: the first rejection rejects the whole.\<close>

fun promise_all :: "'a cmd list \<Rightarrow> 'a list cmd" where
  "promise_all [] = resolve []"
| "promise_all (m # ms) = await m (\<lambda>x. await (promise_all ms) (\<lambda>xs. resolve (x # xs)))"

text \<open>\<open>rawArticles.map((x) => toArticle(x))\<close>: the first object the schema refuses throws.\<close>

fun map_toArticle :: "(string \<Rightarrow> string option) list \<Rightarrow> error + article list" where
  "map_toArticle [] = Inr []"
| "map_toArticle (x # xs) =
     (case toArticle x of
        Inl e \<Rightarrow> Inl e
      | Inr a \<Rightarrow> (case map_toArticle xs of Inl e \<Rightarrow> Inl e | Inr as \<Rightarrow> Inr (a # as)))"

definition getTopArticles :: "int \<Rightarrow> string option \<Rightarrow> article list cmd" where
  "getTopArticles count = (\<lambda>group.
     await (zRange ''article:score'' 0 100 True) (\<lambda>ids.
     await (promise_all (map (\<lambda>x. hGetAll (''article:'' @ x)) ids)) (\<lambda>rawArticles.
     (case map_toArticle rawArticles of
        Inl e \<Rightarrow> reject e
      | Inr articles \<Rightarrow> resolve articles))))"

definition clearAllData :: "unit cmd" where
  "clearAllData = (\<lambda>st. (Inr (), Map.empty))"

text \<open>What is stored for an article: its score in the index \<open>article:score\<close>, its hash
  decoded through the schema, and the \<open>votes\<close> field of its hash.\<close>

definition stored_score :: "store \<Rightarrow> string \<Rightarrow> int option" where
  "stored_score st articleId =
     (case st ''article:score'' of Some (RZSet z) \<Rightarrow> zset_score z articleId | _ \<Rightarrow> None)"

definition stored_article :: "store \<Rightarrow> string \<Rightarrow> error + article" where
  "stored_article st articleId =
     (case fst (hGetAll (''article:'' @ articleId) st) of
        Inl e \<Rightarrow> Inl e
      | Inr obj \<Rightarrow> toArticle obj)"

definition votes_field :: "store \<Rightarrow> string \<Rightarrow> string option" where
  "votes_field st articleId =
     (case st (''article:'' @ articleId) of Some (RHash h) \<Rightarrow> h ''votes'' | _ \<Rightarrow> None)"


subsection \<open>Sequences of calls\<close>

text \<open>A call of the service. \<open>after cs st\<close> is the store that the calls \<open>cs\<close>, made one after
  the other on \<open>st\<close>, leave when each of them returns normally, and \<open>None\<close> when one of them
  rejects. \<open>votes_on a cs\<close> counts the calls of \<open>postVote\<close> for the article \<open>a\<close> in \<open>cs\<close>.\<close>

datatype call =
    PostArticle int string string string
  | PostVote string string
  | UpdateArticleGroups string "string list" "string list"
  | GetTopArticles int "string option"

fun after :: "call list \<Rightarrow> store \<Rightarrow> store option" where
  "after [] st = Some st"
| "after (PostArticle now t l u # cs) st =
     (case postArticle now t l u st of (Inr articleId, st') \<Rightarrow> after cs st' | (Inl e, st') \<Rightarrow> None)"
| "after (PostVote articleId u # cs) st =
     (case postVote articleId u st of (Inr x, st') \<Rightarrow> after cs st' | (Inl e, st') \<Rightarrow> None)"
| "after (UpdateArticleGroups articleId adds removes # cs) st =
     (case updateArticleGroups articleId adds removes st of
        (Inr ok, st') \<Rightarrow> after cs st' | (Inl e, st') \<Rightarrow> None)"
| "after (GetTopArticles n g # cs) st =
     (case getTopArticles n g st of (Inr articles, st') \<Rightarrow> after cs st' | (Inl e, st') \<Rightarrow> None)"

fun votes_on :: "string \<Rightarrow> call list \<Rightarrow> int" where
  "votes_on a [] = 0"
| "votes_on a (PostVote b u # cs) = (if b = a then 1 else 0) + votes_on a cs"
| "votes_on a (c # cs) = votes_on a cs"


subsection \<open>Example runs\<close>

text \<open>On an empty database an article is posted; then \<open>user2\<close> votes for it twice, or
  votes once for the id 2, under which there is no article, or a second article is posted.
  On an empty database again,
  \<open>user2\<close> votes for the id 1 before the article with that id is posted.\<close>

definition posted :: "(error + string) \<times> store" where
  "posted = postArticle 1730000000000 ''Test Article'' ''https://test.com/article'' ''user1'' Map.empty"

definition voted_once :: "(error + unit) \<times> store" where
  "voted_once = postVote ''1'' ''user2'' (snd posted)"

definition voted_twice :: "(error + unit) \<times> store" where
  "voted_twice = postVote ''1'' ''user2'' (snd voted_once)"

definition voted_other :: "(error + unit) \<times> store" where
  "voted_other = postVote ''2'' ''user2'' (snd posted)"

definition posted_second :: "(error + string) \<times> store" where
  "posted_second = postArticle 1730000001000 ''Second Article'' ''https://test.com/2'' ''user2''
                     (snd posted)"









section \<open>Prefix bounds\<close>

lemma charCode_bounds: "lower_letter c \<Longrightarrow> 97 \<le> charCode c \<and> charCode c \<le> 122"
  unfolding lower_letter_def charCode_def less_eq_char_def
  by simp

lemma charCode_END: "charCode (CHR ''{'') = 123"
  by (simp add: charCode_def)

lemma END_MARKER_is_brace: "fromCharCode (charCode (CHR ''z'') + 1) = CHR ''{''"
  by code_simp

lemma less_charCode: "(c < d) = (charCode c < charCode d)"
  by (simp add: less_char_def charCode_def)

lemma charCode_fromCharCode: "0 \<le> n \<Longrightarrow> n < 256 \<Longrightarrow> charCode (fromCharCode n) = n"
  by (simp add: charCode_def fromCharCode_def)

lemma lower_below_END: "lower_letter c \<Longrightarrow> c < CHR ''{''"
  using charCode_bounds [of c] by (simp add: less_charCode charCode_END)

lemma lowercase_less_END: "lowercase r \<Longrightarrow> r < CHR ''{'' # u"
  by (cases r) (auto simp: lowercase_def dest: lower_below_END)

lemma END_not_less_lowercase: "lowercase r \<Longrightarrow> \<not> CHR ''{'' # u < r"
  by (cases r) (auto simp: lowercase_def dest: lower_below_END)

lemma pred_less_iff:
  assumes "lower_letter c"
  shows "(fromCharCode (charCode c - 1) < d) = (c \<le> d)"
proof -
  have "charCode (fromCharCode (charCode c - 1)) = charCode c - 1"
    using charCode_bounds [OF assms] by (intro charCode_fromCharCode) auto
  then show ?thesis
    by (auto simp: less_charCode not_less [symmetric])
qed

lemma bracket_single:
  assumes c: "lower_letter c" and w: "lowercase w"
  shows "([fromCharCode (charCode c - 1), CHR ''{''] @ u < w \<and> w < [c, CHR ''{''] @ u)
         = (take 1 w = [c])"
proof (cases w)
  case Nil
  then show ?thesis by simp
next
  case (Cons d r)
  with w have r: "lowercase r" by (simp add: lowercase_def)
  show ?thesis
    using lowercase_less_END [OF r, of u] END_not_less_lowercase [OF r, of u]
      pred_less_iff [OF c, of d]
    by (auto simp: Cons)
qed

text \<open>The two bounds, with any text \<open>u\<close> appended to both, enclose exactly the lowercase
  words that start with \<open>p\<close>.\<close>

lemma bounds_bracket:
  assumes "p \<noteq> []" and "lowercase p" and "lowercase w"
  shows "(butlast p @ [fromCharCode (charCode (last p) - 1), CHR ''{''] @ u < w
            \<and> w < p @ CHR ''{'' # u)
         = (take (length p) w = p)"
  using assms
proof (induction p arbitrary: w rule: list_nonempty_induct)
  case (single c)
  then show ?case
    using bracket_single [of c w u] by (simp add: lowercase_def)
next
  case (cons c p)
  show ?case
  proof (cases w)
    case Nil
    then show ?thesis by simp
  next
    case (Cons d r)
    with cons.prems have "lowercase r" and "lowercase p"
      by (simp_all add: lowercase_def)
    from cons.IH [OF this(2) this(1)] show ?thesis
      using cons.hyps by (auto simp: Cons)
  qed
qed

lemma getPrefix_eq:
  "p \<noteq> [] \<Longrightarrow>
   getPrefix p = Inr (butlast p @ [fromCharCode (charCode (last p) - 1), CHR ''{''], p @ ''{'')"
  by (simp add: getPrefix_def END_MARKER_is_brace Let_def)

text \<open>
  Claim C7. For a non-empty lowercase prefix \<open>p\<close>, \<open>getPrefix p\<close> returns
  \<open>lowerBound = stem + PRED(last) + END_MARKER\<close> and \<open>upperBound = p + END_MARKER\<close>,
  where \<open>END_MARKER\<close> is the character one past \<open>z\<close>, and a lowercase word \<open>w\<close> starts with
  \<open>p\<close> exactly when \<open>lowerBound < w < upperBound\<close> in the lexicographic order of
  character codes.
\<close>

theorem getPrefix_bounds_enclose_prefix:
  assumes "p \<noteq> []" and "lowercase p" and "lowercase w"
  shows "\<exists>lowerBound upperBound END_MARKER.
           getPrefix p = Inr (lowerBound, upperBound)
         \<and> charCode END_MARKER = charCode (CHR ''z'') + 1
         \<and> lowerBound = butlast p @ [fromCharCode (charCode (last p) - 1)] @ [END_MARKER]
         \<and> upperBound = p @ [END_MARKER]
         \<and> ((take (length p) w = p) = (lowerBound < w \<and> w < upperBound))"
proof -
  have "(take (length p) w = p)
        = (butlast p @ [fromCharCode (charCode (last p) - 1), CHR ''{''] < w \<and> w < p @ ''{'')"
    using bounds_bracket [OF assms, of "[]"] by simp
  moreover have "charCode (CHR ''{'') = charCode (CHR ''z'') + 1"
    by (simp add: charCode_def)
  ultimately show ?thesis
    using getPrefix_eq [OF assms(1)] by simp
qed

theorem getPrefix_bounds_enclose_prefix_witness:
  "getPrefix ''cat'' = Inr (''cas{'', ''cat{'')
   \<and> ''cas{'' < ''cats'' \<and> ''cats'' < ''cat{''
   \<and> \<not> (''cas{'' < ''car'' \<and> ''car'' < ''cat{'')"
proof -
  have p: "''cat'' \<noteq> []" by simp
  have l: "lowercase ''cat''" "lowercase ''cats''" "lowercase ''car''"
    by (simp_all add: lowercase_def lower_letter_def)
  have e: "fromCharCode (charCode (CHR ''t'') - 1) = CHR ''s''" by code_simp
  show ?thesis
    using getPrefix_bounds_enclose_prefix [OF p l(1) l(2)]
      getPrefix_bounds_enclose_prefix [OF p l(1) l(3)]
    by (simp add: getPrefix_eq e)
qed

section \<open>A query that runs alone\<close>

lemma pred_neq_self: "fromCharCode (charCode c - 1) \<noteq> c"
proof
  assume "fromCharCode (charCode c - 1) = c"
  then have "charCode (fromCharCode (charCode c - 1)) = charCode c" by simp
  then have eq: "(charCode c - 1) mod 256 = charCode c"
    by (simp add: charCode_def fromCharCode_def)
  have "0 \<le> charCode c" "charCode c < 256"
    by (simp_all add: charCode_def)
  with eq show False
    by (cases "charCode c = 0") simp_all
qed

lemma zset_rank_None_iff: "(zset_rank z m = None) = (m \<notin> snd ` set z)"
  by (induction z) auto

lemma members_zset_remove: "snd ` set (zset_remove m z) = snd ` set z - {m}"
  by (auto simp: zset_remove_def)

lemma members_zset_insert: "snd ` set (zset_insert s m z) = insert m (snd ` set z)"
  by (auto simp: zset_insert_def zset_remove_def set_insort_key)

lemma zset_remove_insert: "zset_remove m (zset_insert s m z) = zset_remove m z"
  by (simp add: zset_insert_def zset_remove_def filter_insort_triv)

lemma zset_remove_commute: "zset_remove m (zset_remove m' z) = zset_remove m' (zset_remove m z)"
  by (auto simp: zset_remove_def intro: filter_cong)


lemma sentinels_retracted:
  "zset_remove e (zset_remove s (zset_insert 0 e (zset_insert 0 s z)))
   = zset_remove e (zset_remove s z)"
proof -
  have "zset_remove e (zset_remove s (zset_insert 0 e (zset_insert 0 s z)))
        = zset_remove s (zset_remove e (zset_insert 0 e (zset_insert 0 s z)))"
    by (rule zset_remove_commute)
  also have "\<dots> = zset_remove s (zset_remove e (zset_insert 0 s z))"
    by (simp add: zset_remove_insert)
  also have "\<dots> = zset_remove e (zset_remove s (zset_insert 0 s z))"
    by (rule zset_remove_commute)
  also have "\<dots> = zset_remove e (zset_remove s z)"
    by (simp add: zset_remove_insert)
  finally show ?thesis .
qed

lemma sentinels_from_getPrefix:
  "getPrefix target = Inr (start0, end0) \<Longrightarrow>
   startSentinel uuid target = start0 @ uuid \<and> endSentinel uuid target = end0 @ uuid"
  by (auto simp: getPrefix_def Let_def startSentinel_def endSentinel_def END_MARKER_is_brace
      split: if_splits)

lemma sentinels_differ: "target \<noteq> [] \<Longrightarrow> startSentinel uuid target \<noteq> endSentinel uuid target"
proof
  assume t: "target \<noteq> []" and eq: "startSentinel uuid target = endSentinel uuid target"
  have "endSentinel uuid target = butlast target @ [last target, CHR ''{''] @ uuid"
    using t by (simp add: endSentinel_def)
  with eq show False
    by (simp add: startSentinel_def pred_neq_self)
qed

lemma zset_range_Nil: "zset_range [] i j = []"
  by (simp add: zset_range_def Let_def)

lemma run_alone_zset:
  assumes k: "st ''words:all'' = Some (RZSet z)" and t: "target \<noteq> []"
  shows "\<exists>startIdx endIdx.
     zset_rank (zset_insert 0 (endSentinel uuid target) (zset_insert 0 (startSentinel uuid target) z))
        (startSentinel uuid target) = Some startIdx
   \<and> zset_rank (zset_insert 0 (endSentinel uuid target) (zset_insert 0 (startSentinel uuid target) z))
        (endSentinel uuid target) = Some endIdx
   \<and> getSimilarWords no_others uuid target st =
       (Inr (map snd (zset_range (zset_remove (endSentinel uuid target) (zset_remove (startSentinel uuid target) z))
               startIdx (min endIdx (min (int (length z)) (startIdx + 100)) - 2))),
        if zset_remove (endSentinel uuid target) (zset_remove (startSentinel uuid target) z) = []
        then st(''words:all'' := None)
        else st(''words:all'' \<mapsto> RZSet (zset_remove (endSentinel uuid target) (zset_remove (startSentinel uuid target) z))))"
proof -
  define s where "s = startSentinel uuid target"
  define e where "e = endSentinel uuid target"
  define z2 where "z2 = zset_insert 0 e (zset_insert 0 s z)"
  have se: "s \<noteq> e" using sentinels_differ [OF t] by (simp add: s_def e_def)
  have "s \<in> snd ` set z2" "e \<in> snd ` set z2"
    by (simp_all add: z2_def members_zset_insert)
  then obtain i j where i: "zset_rank z2 s = Some i" and j: "zset_rank z2 e = Some j"
    using zset_rank_None_iff [of z2 s] zset_rank_None_iff [of z2 e] by fastforce
  have ne: "zset_remove s z2 \<noteq> []"
  proof
    assume "zset_remove s z2 = []"
    then have "snd ` set (zset_remove s z2) = {}" by simp
    then show False using se by (simp add: members_zset_remove z2_def members_zset_insert)
  qed
  have gp: "getPrefix target = Inr (butlast target @ [fromCharCode (charCode (last target) - 1), CHR ''{''], target @ ''{'')"
    by (rule getPrefix_eq [OF t])
  have r: "zset_remove e (zset_remove s z2) = zset_remove e (zset_remove s z)"
    unfolding z2_def by (rule sentinels_retracted)
  have "getSimilarWords no_others uuid target st =
       (Inr (map snd (zset_range (zset_remove e (zset_remove s z))
               i (min j (min (int (length z)) (i + 100)) - 2))),
        if zset_remove e (zset_remove s z) = []
        then st(''words:all'' := None)
        else st(''words:all'' \<mapsto> RZSet (zset_remove e (zset_remove s z))))"
    using k i j ne r
    by (simp add: getSimilarWords_def gp await_def interleave_def no_others_def resolve_def
        zCard_def zAdd_def zRank_def zRem_def zRange_def
        s_def [symmetric, unfolded startSentinel_def, simplified]
        e_def [symmetric, unfolded endSentinel_def, simplified]
        z2_def [symmetric] Let_def zset_range_Nil)
  with i j show ?thesis
    unfolding s_def e_def z2_def by blast
qed

subsection \<open>Sorted lists\<close>

lemma length_filter_insort:
  "length (filter P (insort x xs)) = length (filter P xs) + (if P x then 1 else 0)"
  by (induction xs) auto

lemma takeWhile_neq_sorted:
  "sorted xs \<Longrightarrow> m \<in> set xs \<Longrightarrow> takeWhile (\<lambda>x. x \<noteq> m) xs = filter (\<lambda>x. x < m) xs"
proof (induction xs)
  case Nil
  then show ?case by simp
next
  case (Cons x xs)
  show ?case
  proof (cases "x = m")
    case True
    have "filter (\<lambda>y. y < m) xs = []"
      using Cons.prems(1) True by (auto simp: filter_empty_conv)
    with True show ?thesis by simp
  next
    case False
    with Cons.prems have "m \<in> set xs" "x < m" by auto
    with Cons show ?thesis by simp
  qed
qed

lemma filter_less_sorted:
  fixes x :: "'a::linorder"
  shows "sorted xs \<Longrightarrow> filter (\<lambda>w. w < x) xs = take (length (filter (\<lambda>w. w < x) xs)) xs"
proof (induction xs)
  case Nil
  then show ?case by simp
next
  case (Cons y ys)
  show ?case
  proof (cases "y < x")
    case True
    with Cons show ?thesis by simp
  next
    case False
    have "filter (\<lambda>w. w < x) ys = []"
      using Cons.prems False by (auto simp: filter_empty_conv)
    with False show ?thesis by simp
  qed
qed

lemma filter_not_less_sorted:
  fixes x :: "'a::linorder"
  shows "sorted xs \<Longrightarrow> filter (\<lambda>w. \<not> w < x) xs = drop (length (filter (\<lambda>w. w < x) xs)) xs"
proof (induction xs)
  case Nil
  then show ?case by simp
next
  case (Cons y ys)
  show ?case
  proof (cases "y < x")
    case True
    with Cons show ?thesis by simp
  next
    case False
    have "filter (\<lambda>w. w < x) ys = []" "filter (\<lambda>w. \<not> w < x) ys = ys"
      using Cons.prems False by (auto simp: filter_empty_conv filter_id_conv)
    with False show ?thesis by simp
  qed
qed

lemma length_filter_split:
  "length (filter P xs) = length (filter (\<lambda>w. P w \<and> Q w) xs) + length (filter (\<lambda>w. P w \<and> \<not> Q w) xs)"
  by (induction xs) auto

text \<open>In a sorted list, the elements from \<open>lo\<close> up to but excluding \<open>hi\<close> are the slice between the
  two counts.\<close>

lemma slice_sorted:
  fixes lo :: "'a::linorder"
  assumes "sorted xs" and "lo \<le> hi"
  shows "filter (\<lambda>w. \<not> w < lo \<and> w < hi) xs
         = take (length (filter (\<lambda>w. w < hi) xs) - length (filter (\<lambda>w. w < lo) xs))
             (drop (length (filter (\<lambda>w. w < lo) xs)) xs)"
proof -
  let ?ys = "filter (\<lambda>w. \<not> w < lo) xs"
  have s: "sorted ?ys" using assms(1) sorted_filter [of "\<lambda>w. w" xs "\<lambda>w. \<not> w < lo"] by simp
  have "filter (\<lambda>w. \<not> w < lo \<and> w < hi) xs = filter (\<lambda>w. w < hi) ?ys"
    by (simp add: conj_commute)
  also have "\<dots> = take (length (filter (\<lambda>w. w < hi) ?ys)) ?ys"
    by (rule filter_less_sorted [OF s])
  finally have 1: "filter (\<lambda>w. \<not> w < lo \<and> w < hi) xs = take (length (filter (\<lambda>w. w < hi) ?ys)) ?ys" .
  have "filter (\<lambda>w. w < hi \<and> w < lo) xs = filter (\<lambda>w. w < lo) xs"
    using assms(2) by (intro filter_cong) auto
  then have "length (filter (\<lambda>w. w < hi) xs)
        = length (filter (\<lambda>w. w < lo) xs) + length (filter (\<lambda>w. w < hi \<and> \<not> w < lo) xs)"
    using length_filter_split [of "\<lambda>w. w < hi" xs "\<lambda>w. w < lo"] by simp
  then have 2: "length (filter (\<lambda>w. w < hi) ?ys)
        = length (filter (\<lambda>w. w < hi) xs) - length (filter (\<lambda>w. w < lo) xs)"
    by (simp add: conj_commute)
  have "filter (\<lambda>w. \<not> w < lo \<and> w < hi) xs
        = take (length (filter (\<lambda>w. w < hi) xs) - length (filter (\<lambda>w. w < lo) xs)) ?ys"
    using 1 2 by simp
  then show ?thesis
    by (simp only: filter_not_less_sorted [OF assms(1)])
qed

subsection \<open>Sorted sets whose scores are all 0\<close>

lemma Pair0_less: "((0::int, a) < (0, b)) = (a < b)" and Pair0_le: "((0::int, a) \<le> (0, b)) = (a \<le> b)"
  by (auto simp: less_prod_def less_eq_prod_def)

lemma insort_Pair0: "insort (0::int, m) (map (Pair 0) ws) = map (Pair 0) (insort m ws)"
  by (induction ws) (auto simp: Pair0_le)

lemma zset_remove_Pair0: "zset_remove m (map (Pair 0) ws) = map (Pair 0) (filter (\<lambda>w. w \<noteq> m) ws)"
  by (induction ws) (auto simp: zset_remove_def)

lemma zset_remove_Pair0_absent: "m \<notin> set ws \<Longrightarrow> zset_remove m (map (Pair 0) ws) = map (Pair 0) ws"
proof -
  assume "m \<notin> set ws"
  then have "filter (\<lambda>w. w \<noteq> m) ws = ws" by (auto simp: filter_id_conv)
  then show ?thesis by (simp add: zset_remove_Pair0)
qed

lemma zset_insert_Pair0: "m \<notin> set ws \<Longrightarrow> zset_insert 0 m (map (Pair 0) ws) = map (Pair 0) (insort m ws)"
  by (simp add: zset_insert_def zset_remove_Pair0_absent insort_Pair0)

lemma zset_rank_Pair0:
  "m \<in> set ws \<Longrightarrow> zset_rank (map (Pair 0) ws) m = Some (int (length (takeWhile (\<lambda>w. w \<noteq> m) ws)))"
  by (induction ws) auto

lemma zset_rank_sorted:
  "sorted ws \<Longrightarrow> m \<in> set ws \<Longrightarrow> zset_rank (map (Pair 0) ws) m = Some (int (below m ws))"
  by (simp add: zset_rank_Pair0 takeWhile_neq_sorted below_def)

lemma zset_range_map: "zset_range (map f xs) i j = map f (zset_range xs i j)"
  by (simp add: zset_range_def Let_def take_map drop_map)

lemma run_alone_absent:
  assumes k: "st ''words:all'' = None" and t: "target \<noteq> []"
  shows "getSimilarWords no_others uuid target st = (Inr [], st)"
proof -
  define s where "s = startSentinel uuid target"
  define e where "e = endSentinel uuid target"
  define z2 where "z2 = zset_insert 0 e [(0, s)]"
  have se: "s \<noteq> e" using sentinels_differ [OF t] by (simp add: s_def e_def)
  have z2': "z2 = zset_insert 0 e (zset_insert 0 s [])"
    by (simp add: z2_def zset_insert_def zset_remove_def)
  have "s \<in> snd ` set z2" "e \<in> snd ` set z2"
    by (simp_all add: z2' members_zset_insert)
  then obtain i j where i: "zset_rank z2 s = Some i" and j: "zset_rank z2 e = Some j"
    using zset_rank_None_iff [of z2 s] zset_rank_None_iff [of z2 e] by fastforce
  have ne: "zset_remove s z2 \<noteq> []"
  proof
    assume "zset_remove s z2 = []"
    then have "snd ` set (zset_remove s z2) = {}" by simp
    then show False using se by (simp add: members_zset_remove z2' members_zset_insert)
  qed
  have gp: "getPrefix target = Inr (butlast target @ [fromCharCode (charCode (last target) - 1), CHR ''{''], target @ ''{'')"
    by (rule getPrefix_eq [OF t])
  have r: "zset_remove e (zset_remove s z2) = []"
    unfolding z2' sentinels_retracted by (simp add: zset_remove_def)
  have u: "st(''words:all'' := None) = st"
    using k by (simp add: fun_upd_idem)
  show ?thesis
    using k i j ne r u
    by (simp add: getSimilarWords_def gp await_def interleave_def no_others_def resolve_def
        zCard_def zAdd_def zRank_def zRem_def zRange_def
        s_def [symmetric, unfolded startSentinel_def, simplified]
        e_def [symmetric, unfolded endSentinel_def, simplified]
        z2_def [symmetric] Let_def zset_range_Nil)
qed

lemma not_lowercase_start: "\<not> lowercase (startSentinel uuid p)"
  by (simp add: startSentinel_def lowercase_def lower_letter_def)

lemma not_lowercase_end: "\<not> lowercase (endSentinel uuid p)"
  by (simp add: endSentinel_def lowercase_def lower_letter_def)

lemma append_less_append: "(xs @ ys < xs @ zs) = (ys < (zs :: 'a::linorder list))"
  by (induction xs) auto

lemma start_less_end:
  assumes "p \<noteq> []" and "lowercase p"
  shows "startSentinel uuid p < endSentinel uuid p"
proof -
  have l: "lower_letter (last p)"
    using assms by (simp add: lowercase_def list_all_iff)
  have "endSentinel uuid p = butlast p @ [last p, CHR ''{''] @ uuid"
    using assms(1) by (simp add: endSentinel_def)
  then show ?thesis
    using pred_less_iff [OF l, of "last p"]
    by (simp add: startSentinel_def append_less_append)
qed

text \<open>A query that runs alone over an index of lowercase words: which slice it returns.\<close>

lemma run_alone_dictionary:
  assumes d: "indexes st ws" and p: "p \<noteq> []" "lowercase p"
  shows "getSimilarWords no_others uuid p st =
           (Inr (zset_range ws (int (below (startSentinel uuid p) ws))
                   (min (int (below (endSentinel uuid p) ws) + 1)
                      (min (int (length ws)) (int (below (startSentinel uuid p) ws) + 100)) - 2)),
            st)"
proof (cases "ws = []")
  case True
  with d have "st ''words:all'' = None" by (simp add: indexes_def)
  then have "getSimilarWords no_others uuid p st = (Inr [], st)"
    using p(1) by (rule run_alone_absent)
  with True show ?thesis
    by (simp add: zset_range_Nil)
next
  case False
  define s where "s = startSentinel uuid p"
  define e where "e = endSentinel uuid p"
  from d False have k: "st ''words:all'' = Some (RZSet (map (Pair 0) ws))"
    and srt: "sorted ws" and low: "list_all lowercase ws"
    by (simp_all add: indexes_def)
  have s: "s \<notin> set ws" and e: "e \<notin> set ws"
    using low not_lowercase_start [of uuid p] not_lowercase_end [of uuid p]
    by (auto simp: list_all_iff s_def e_def)
  have se: "s < e" unfolding s_def e_def by (rule start_less_end [OF p])
  let ?ws2 = "insort e (insort s ws)"
  have z2: "zset_insert 0 e (zset_insert 0 s (map (Pair 0) ws)) = map (Pair 0) ?ws2"
    using s e se by (simp add: zset_insert_Pair0 set_insort_key)
  have srt2: "sorted ?ws2" using srt by (simp add: sorted_insort)
  have rs: "zset_rank (map (Pair 0) ?ws2) s = Some (int (below s ws))"
    using se by (subst zset_rank_sorted [OF srt2]) (simp_all add: set_insort_key below_def length_filter_insort)
  have re: "zset_rank (map (Pair 0) ?ws2) e = Some (int (below e ws) + 1)"
    using se by (subst zset_rank_sorted [OF srt2]) (simp_all add: set_insort_key below_def length_filter_insort)
  have z4: "zset_remove e (zset_remove s (map (Pair 0) ws)) = map (Pair 0) ws"
    using s e by (simp add: zset_remove_Pair0_absent)
  have u: "st(''words:all'' \<mapsto> RZSet (map (Pair 0) ws)) = st"
    using k by (simp add: fun_upd_idem)
  from run_alone_zset [of st "map (Pair 0) ws" p uuid, OF k p(1)] show ?thesis
    using False
    by (simp add: s_def [symmetric] e_def [symmetric] z2 rs re z4 u zset_range_map comp_def)
qed

lemma less_upper_bound: "lowercase w \<Longrightarrow> (w < p @ CHR ''{'' # u) = (w < p @ ''{'')"
proof (induction p arbitrary: w)
  case Nil
  then show ?case using lowercase_less_END by simp
next
  case (Cons c p)
  show ?case
  proof (cases w)
    case Nil
    then show ?thesis by simp
  next
    case (Cons d r)
    with Cons.prems have "lowercase r" by (simp add: lowercase_def)
    from Cons.IH [OF this] show ?thesis by (simp add: Cons)
  qed
qed

lemma matches_slice:
  assumes d: "indexes st ws" and p: "p \<noteq> []" "lowercase p"
  shows "filter (\<lambda>w. take (length p) w = p) ws
         = take (below (endSentinel uuid p) ws - below (startSentinel uuid p) ws)
             (drop (below (startSentinel uuid p) ws) ws)"
proof -
  from d have srt: "sorted ws" and low: "list_all lowercase ws"
    by (simp_all add: indexes_def)
  have "filter (\<lambda>w. take (length p) w = p) ws
        = filter (\<lambda>w. \<not> w < startSentinel uuid p \<and> w < endSentinel uuid p) ws"
  proof (rule filter_cong [OF refl])
    fix w assume "w \<in> set ws"
    with low have l: "lowercase w" by (simp add: list_all_iff)
    then have "w \<noteq> startSentinel uuid p" using not_lowercase_start [of uuid p] by auto
    then have "(\<not> w < startSentinel uuid p) = (startSentinel uuid p < w)" by auto
    then show "(take (length p) w = p) = (\<not> w < startSentinel uuid p \<and> w < endSentinel uuid p)"
      using bounds_bracket [OF p l, of uuid] by (simp add: startSentinel_def endSentinel_def)
  qed
  also have "\<dots> = take (below (endSentinel uuid p) ws - below (startSentinel uuid p) ws)
             (drop (below (startSentinel uuid p) ws) ws)"
    unfolding below_def using start_less_end [OF p, of uuid]
    by (intro slice_sorted [OF srt]) simp
  finally show ?thesis .
qed

lemma below_mono:
  assumes "p \<noteq> []" "lowercase p"
  shows "below (startSentinel uuid p) ws \<le> below (endSentinel uuid p) ws"
proof -
  have "\<And>w. w < startSentinel uuid p \<Longrightarrow> w < endSentinel uuid p"
    using start_less_end [OF assms, of uuid] by simp
  then have "filter (\<lambda>w. w < endSentinel uuid p \<and> w < startSentinel uuid p) ws
             = filter (\<lambda>w. w < startSentinel uuid p) ws"
    by (intro filter_cong) auto
  then show ?thesis
    unfolding below_def
    using length_filter_split [of "\<lambda>w. w < endSentinel uuid p" ws "\<lambda>w. w < startSentinel uuid p"]
    by simp
qed


lemma below_end:
  assumes "list_all lowercase ws"
  shows "below (endSentinel uuid p) ws = below (p @ ''{'') ws"
proof -
  have "filter (\<lambda>w. w < endSentinel uuid p) ws = filter (\<lambda>w. w < p @ ''{'') ws"
  proof (rule filter_cong [OF refl])
    fix w assume "w \<in> set ws"
    with assms have "lowercase w" by (simp add: list_all_iff)
    from less_upper_bound [OF this, of p uuid]
    show "(w < endSentinel uuid p) = (w < p @ ''{'')" by (simp add: endSentinel_def)
  qed
  then show ?thesis by (simp add: below_def)
qed

lemma below_less_length: "\<exists>w\<in>set ws. \<not> w < x \<Longrightarrow> below x ws < length ws"
  unfolding below_def by (auto intro: length_filter_less)

lemma below_pos: "\<exists>w\<in>set ws. w < x \<Longrightarrow> 0 < below x ws"
  unfolding below_def by (simp add: filter_empty_conv)

lemma zset_range_slice:
  assumes "a \<le> b" "b < length xs" "0 < b"
  shows "zset_range xs (int a) (int b - 1) = take (b - a) (drop a xs)"
  using assms by (auto simp: zset_range_def Let_def nat_diff_distrib' of_nat_diff)

lemma zset_range_cap:
  assumes "a + k \<le> length xs" "0 < k"
  shows "zset_range xs (int a) (int a + int k - 1) = take k (drop a xs)"
  using assms by (auto simp: zset_range_def Let_def)

section \<open>Prefix queries\<close>

lemma indexes_five_words: "indexes (word_store five_words) five_words"
  by (simp add: indexes_def word_store_def five_words_def lowercase_def lower_letter_def)

lemma many_words_ascending: "sorted_wrt (<) many_words"
  by code_simp

lemma many_words_lowercase: "list_all lowercase many_words"
  by code_simp

lemma many_words_matches:
  "length (filter (\<lambda>w. take (length ''a'') w = ''a'') many_words) = 104"
  by code_simp

lemma indexes_many_words: "indexes (word_store many_words) many_words"
proof -
  have "many_words \<noteq> []" by code_simp
  moreover have "sorted many_words \<and> distinct many_words"
    using many_words_ascending by (simp add: strict_sorted_iff)
  ultimately show ?thesis
    using many_words_lowercase by (simp add: indexes_def word_store_def)
qed

text \<open>More than 100 matches: the stop rank is \<open>startIdx + 100 - 2\<close>, and the ranks
  \<open>startIdx\<close> to \<open>startIdx + 98\<close> hold 99 members.\<close>

lemma run_alone_capped:
  assumes "indexes st ws" and "p \<noteq> []" and "lowercase p"
    and "100 < length (filter (\<lambda>w. take (length p) w = p) ws)"
  shows "getSimilarWords no_others uuid p st
           = (Inr (take 99 (filter (\<lambda>w. take (length p) w = p) ws)), st)"
proof -
  let ?a = "below (startSentinel uuid p) ws" and ?b = "below (endSentinel uuid p) ws"
  have m: "filter (\<lambda>w. take (length p) w = p) ws = take (?b - ?a) (drop ?a ws)"
    by (rule matches_slice [OF assms(1-3)])
  with assms(4) have big: "100 < ?b - ?a" "100 < length ws - ?a" by simp_all
  then have "min (int ?b + 1) (min (int (length ws)) (int ?a + 100)) - 2 = int ?a + int 99 - 1"
    by simp
  then have "getSimilarWords no_others uuid p st
             = (Inr (zset_range ws (int ?a) (int ?a + int 99 - 1)), st)"
    using run_alone_dictionary [OF assms(1-3), of uuid] by simp
  moreover have "zset_range ws (int ?a) (int ?a + int 99 - 1) = take 99 (drop ?a ws)"
    using big by (intro zset_range_cap) simp_all
  moreover have "take 99 (drop ?a ws) = take 99 (filter (\<lambda>w. take (length p) w = p) ws)"
    using big by (simp add: m min_def)
  ultimately show ?thesis by simp
qed


text \<open>
  Where the stop rank is right. A query that runs alone, for a non-empty lowercase prefix
  \<open>p\<close>, over an index of lowercase words of which fewer than 100 start with \<open>p\<close>, and in
  which some word sorts before \<open>p + END_MARKER\<close> and some word sorts after it, returns
  exactly the words whose first \<open>len(p)\<close> characters equal \<open>p\<close>, in ascending order, and
  leaves the store as it was.
\<close>

lemma run_alone_matches:
  assumes "indexes st ws" and "p \<noteq> []" and "lowercase p"
    and "length (filter (\<lambda>w. take (length p) w = p) ws) < 100"
    and "\<exists>w\<in>set ws. w < p @ ''{''"
    and "\<exists>w\<in>set ws. p @ ''{'' < w"
  shows "getSimilarWords no_others uuid p st = (Inr (filter (\<lambda>w. take (length p) w = p) ws), st)
       \<and> sorted (filter (\<lambda>w. take (length p) w = p) ws)
       \<and> distinct (filter (\<lambda>w. take (length p) w = p) ws)"
proof -
  let ?a = "below (startSentinel uuid p) ws" and ?b = "below (endSentinel uuid p) ws"
  from assms(1) have srt: "sorted ws" and dist: "distinct ws" and low: "list_all lowercase ws"
    by (simp_all add: indexes_def)
  have b: "?b = below (p @ ''{'') ws" by (rule below_end [OF low])
  have ab: "?a \<le> ?b" by (rule below_mono [OF assms(2,3)])
  have pos: "0 < ?b" unfolding b using assms(5) by (rule below_pos)
  have "\<exists>w\<in>set ws. \<not> w < p @ ''{''" using assms(6) less_asym by blast
  then have lt: "?b < length ws" unfolding b by (rule below_less_length)
  have m: "filter (\<lambda>w. take (length p) w = p) ws = take (?b - ?a) (drop ?a ws)"
    by (rule matches_slice [OF assms(1-3)])
  with assms(4) have "?b - ?a < 100" using lt by simp
  then have "min (int ?b + 1) (min (int (length ws)) (int ?a + 100)) - 2 = int ?b - 1"
    using lt ab by simp
  then have "getSimilarWords no_others uuid p st = (Inr (zset_range ws (int ?a) (int ?b - 1)), st)"
    using run_alone_dictionary [OF assms(1-3), of uuid] by simp
  then have "getSimilarWords no_others uuid p st = (Inr (filter (\<lambda>w. take (length p) w = p) ws), st)"
    using zset_range_slice [OF ab lt pos] m by simp
  then show ?thesis
    using srt dist sorted_filter [of "\<lambda>w. w" ws "\<lambda>w. take (length p) w = p"] by simp
qed

text \<open>The query \<open>cat\<close> over \<open>cap, car, cat, cats, dog\<close> returns \<open>cat, cats\<close>.\<close>

lemma run_alone_cat:
  "getSimilarWords no_others uuid0 ''cat'' (word_store five_words)
     = (Inr [''cat'', ''cats''], word_store five_words)"
proof -
  have 1: "''cat'' \<noteq> []" and 2: "lowercase ''cat''"
    by (simp_all add: lowercase_def lower_letter_def)
  have 3: "length (filter (\<lambda>w. take (length ''cat'') w = ''cat'') five_words) < 100"
    by (simp add: five_words_def)
  have 4: "\<exists>w\<in>set five_words. w < ''cat'' @ ''{''"
    and 5: "\<exists>w\<in>set five_words. ''cat'' @ ''{'' < w"
    by (simp_all add: five_words_def)
  from run_alone_matches [OF indexes_five_words 1 2 3 4 5, of uuid0]
  show ?thesis
    by (simp add: five_words_def)
qed

text \<open>The last of the words that start with \<open>p\<close> is the last word of the dictionary.\<close>

lemma last_not_in_butlast: "distinct xs \<Longrightarrow> xs \<noteq> [] \<Longrightarrow> last xs \<notin> set (butlast xs)"
  by (induction xs) auto

lemma zset_range_butlast:
  assumes "a < length xs" and "2 \<le> length xs"
  shows "zset_range xs (int a) (int (length xs) - 2) = butlast (drop a xs)"
proof (cases "a = length xs - 1")
  case True
  with assms have "drop a xs = [last xs]"
    by (metis append_butlast_last_id append_eq_conv_conj length_butlast list.size(3) not_less_zero)
  with True assms show ?thesis
    by (simp add: zset_range_def Let_def)
next
  case False
  with assms have "a + 1 < length xs" by simp
  then have "nat (int (length xs) - 2 - int a + 1) = length (drop a xs) - 1" by simp
  with assms \<open>a + 1 < length xs\<close> show ?thesis
    by (simp add: zset_range_def Let_def butlast_conv_take)
qed

lemma last_word_matches:
  assumes d: "indexes st ws" and p: "p \<noteq> []" "lowercase p"
    and ne: "ws \<noteq> []" and l: "take (length p) (last ws) = p"
  shows "below (endSentinel uuid p) ws = length ws
       \<and> below (startSentinel uuid p) ws < length ws
       \<and> filter (\<lambda>w. take (length p) w = p) ws = drop (below (startSentinel uuid p) ws) ws"
proof -
  from d have srt: "sorted ws" and low: "list_all lowercase ws"
    by (simp_all add: indexes_def)
  from ne low have ll: "lowercase (last ws)" by (simp add: list_all_iff)
  from bounds_bracket [OF p ll, of uuid] l
  have s: "startSentinel uuid p < last ws" and e: "last ws < endSentinel uuid p"
    by (simp_all add: startSentinel_def endSentinel_def)
  have le: "\<And>w. w \<in> set ws \<Longrightarrow> w \<le> last ws"
  proof -
    fix w assume "w \<in> set ws"
    then obtain i where i: "i < length ws" "ws ! i = w" by (auto simp: in_set_conv_nth)
    with srt ne have "ws ! i \<le> ws ! (length ws - 1)"
      by (intro sorted_nth_mono) simp_all
    with i ne show "w \<le> last ws" by (simp add: last_conv_nth)
  qed
  have "\<And>w. w \<in> set ws \<Longrightarrow> w < endSentinel uuid p"
    using le e by (rule le_less_trans)
  then have "filter (\<lambda>w. w < endSentinel uuid p) ws = ws"
    by (simp add: filter_id_conv)
  then have b: "below (endSentinel uuid p) ws = length ws"
    by (simp add: below_def)
  have "last ws \<in> set ws" using ne by simp
  then have "\<exists>w\<in>set ws. \<not> w < startSentinel uuid p"
    using s less_asym by blast
  then have a: "below (startSentinel uuid p) ws < length ws"
    by (rule below_less_length)
  from matches_slice [OF d p, of uuid] b
  have "filter (\<lambda>w. take (length p) w = p) ws = drop (below (startSentinel uuid p) ws) ws"
    by simp
  with a b show ?thesis by simp
qed

text \<open>
  Claim C1 says that a prefix query returns exactly the words that start with the prefix,
  and that a prefix equal to a word includes that word. The stop rank
  \<open>min(endIdx, wordsLen, startIdx + 100) - 2\<close> takes 2 from \<open>wordsLen\<close> too, the number of
  words counted before the two sentinels were added: whenever the last word of a
  dictionary of two words or more starts with the prefix, and no more than 100 words do,
  the stop rank is one short and the query returns the matching words without the last
  one, which is a word of the dictionary that starts with the prefix.
\<close>

theorem getSimilarWords_drops_last_match:
  assumes "indexes st ws" and "p \<noteq> []" and "lowercase p"
    and "2 \<le> length ws" and "take (length p) (last ws) = p"
    and "length (filter (\<lambda>w. take (length p) w = p) ws) \<le> 100"
  shows "getSimilarWords no_others uuid p st
           = (Inr (butlast (filter (\<lambda>w. take (length p) w = p) ws)), st)
       \<and> last ws \<in> set (filter (\<lambda>w. take (length p) w = p) ws)
       \<and> last ws \<notin> set (butlast (filter (\<lambda>w. take (length p) w = p) ws))"
proof -
  let ?a = "below (startSentinel uuid p) ws"
  let ?m = "filter (\<lambda>w. take (length p) w = p) ws"
  from assms(4) have ne: "ws \<noteq> []" by auto
  from assms(1) have dist: "distinct ws" by (simp add: indexes_def)
  from last_word_matches [OF assms(1-3) ne assms(5), of uuid]
  have b: "below (endSentinel uuid p) ws = length ws" and a: "?a < length ws"
    and m: "?m = drop ?a ws"
    by simp_all
  from assms(6) m have "length ws - ?a \<le> 100" by simp
  then have "min (int (length ws) + 1) (min (int (length ws)) (int ?a + 100)) - 2
             = int (length ws) - 2"
    by simp
  with run_alone_dictionary [OF assms(1-3), of uuid] b
  have "getSimilarWords no_others uuid p st
          = (Inr (zset_range ws (int ?a) (int (length ws) - 2)), st)"
    by simp
  with zset_range_butlast [OF a assms(4)] m
  have 1: "getSimilarWords no_others uuid p st = (Inr (butlast ?m), st)" by simp
  have 2: "last ws \<in> set ?m" using ne assms(5) by simp
  have "last ?m = last ws" using a m by simp
  moreover have "distinct ?m" using dist by simp
  moreover have "?m \<noteq> []" using 2 by (cases ?m) simp_all
  ultimately have 3: "last ws \<notin> set (butlast ?m)"
    using last_not_in_butlast [of ?m] by simp
  from 1 2 3 show ?thesis by blast
qed

text \<open>The query \<open>dog\<close> over \<open>cap, car, cat, cats, dog\<close>: \<open>dog\<close> is a word of the dictionary,
  the only one that starts with \<open>dog\<close>, and the query returns no word.\<close>

theorem getSimilarWords_drops_last_match_witness:
  "indexes (word_store five_words) five_words
   \<and> last five_words = ''dog''
   \<and> filter (\<lambda>w. take (length ''dog'') w = ''dog'') five_words = [''dog'']
   \<and> getSimilarWords no_others uuid0 ''dog'' (word_store five_words)
       = (Inr [], word_store five_words)"
proof -
  have 1: "''dog'' \<noteq> []" and 2: "lowercase ''dog''"
    by (simp_all add: lowercase_def lower_letter_def)
  have 3: "2 \<le> length five_words"
    and 4: "take (length ''dog'') (last five_words) = ''dog''"
    and 5: "length (filter (\<lambda>w. take (length ''dog'') w = ''dog'') five_words) \<le> 100"
    and 6: "filter (\<lambda>w. take (length ''dog'') w = ''dog'') five_words = [''dog'']"
    and 7: "last five_words = ''dog''"
    by (simp_all add: five_words_def)
  from getSimilarWords_drops_last_match [OF indexes_five_words 1 2 3 4 5, of uuid0]
  have "getSimilarWords no_others uuid0 ''dog'' (word_store five_words)
       = (Inr [], word_store five_words)"
    unfolding 6 by simp
  with indexes_five_words 6 7 show ?thesis by simp
qed

text \<open>
  The same stop rank goes wrong at the other end of the dictionary. When no word sorts
  before \<open>p + END_MARKER\<close>, it is \<open>-1\<close>, which Redis reads as the last rank: the query \<open>a\<close>
  over the five words, none of which starts with \<open>a\<close>, returns all five.
\<close>

lemma getSimilarWords_returns_whole_dictionary:
  "getSimilarWords no_others uuid0 ''a'' (word_store five_words)
   = (Inr five_words, word_store five_words)"
proof -
  have 1: "''a'' \<noteq> []" and 2: "lowercase ''a''"
    by (simp_all add: lowercase_def lower_letter_def)
  have e: "fromCharCode (charCode (CHR ''a'') - 1) = CHR 0x60" by code_simp
  have a: "below (startSentinel uuid0 ''a'') five_words = 0"
    by (simp add: below_def startSentinel_def five_words_def e)
  have b: "below (endSentinel uuid0 ''a'') five_words = 0"
    by (simp add: below_def endSentinel_def five_words_def)
  have "zset_range five_words 0 (- 1) = five_words"
    by (simp add: zset_range_def five_words_def)
  with run_alone_dictionary [OF indexes_five_words 1 2, of uuid0]
  show ?thesis
    by (simp add: a b five_words_def [symmetric]) (simp add: five_words_def)
qed

text \<open>
  Claim C6 says that a query matched by more than 100 words returns the 100 smallest of
  them. The code returns the 99 smallest, for every dictionary of lowercase words and
  every non-empty lowercase prefix.
\<close>

theorem getSimilarWords_caps_at_99:
  assumes "indexes st ws" and "p \<noteq> []" and "lowercase p"
    and "100 < length (filter (\<lambda>w. take (length p) w = p) ws)"
  shows "getSimilarWords no_others uuid p st
           = (Inr (take 99 (filter (\<lambda>w. take (length p) w = p) ws)), st)
       \<and> length (take 99 (filter (\<lambda>w. take (length p) w = p) ws)) = 99"
  using run_alone_capped [OF assms, of uuid] assms(4) by simp

theorem getSimilarWords_caps_at_99_witness:
  "indexes (word_store many_words) many_words
   \<and> length (filter (\<lambda>w. take (length ''a'') w = ''a'') many_words) = 104
   \<and> fst (getSimilarWords no_others uuid0 ''a'' (word_store many_words))
       = Inr (take 99 (filter (\<lambda>w. take (length ''a'') w = ''a'') many_words))
   \<and> length (take 99 (filter (\<lambda>w. take (length ''a'') w = ''a'') many_words)) = 99"
proof -
  have 1: "''a'' \<noteq> []" and 2: "lowercase ''a''"
    by (simp_all add: lowercase_def lower_letter_def)
  have 3: "100 < length (filter (\<lambda>w. take (length ''a'') w = ''a'') many_words)"
    by (simp only: many_words_matches)
  from getSimilarWords_caps_at_99 [OF indexes_many_words 1 2 3, of uuid0]
  show ?thesis
    using indexes_many_words many_words_matches by simp
qed

section \<open>Sentinels\<close>

lemma map_snd_zset_remove: "map snd (zset_remove m z) = filter (\<lambda>x. x \<noteq> m) (map snd z)"
  by (simp add: zset_remove_def filter_map comp_def)

text \<open>
  The path that returns. A query that runs alone, for a non-empty target, on a store whose
  key \<open>words:all\<close> is absent or holds a sorted set, returns normally; when it returns,
  neither sentinel is a member of the index, the index holds its previous members other
  than the sentinels in their previous order, and an index that did not hold the
  sentinels has the cardinality it had before.
\<close>

lemma getSimilarWords_alone_retracts_sentinels:
  assumes "target \<noteq> []"
    and "st ''words:all'' = None \<or> (\<exists>z. st ''words:all'' = Some (RZSet z))"
  shows "\<exists>similarWords st'.
           getSimilarWords no_others uuid target st = (Inr similarWords, st')
         \<and> startSentinel uuid target \<notin> set (index_members st')
         \<and> endSentinel uuid target \<notin> set (index_members st')
         \<and> index_members st'
             = filter (\<lambda>m. m \<noteq> startSentinel uuid target \<and> m \<noteq> endSentinel uuid target)
                 (index_members st)
         \<and> (startSentinel uuid target \<notin> set (index_members st)
              \<and> endSentinel uuid target \<notin> set (index_members st)
              \<longrightarrow> zCard ''words:all'' st' = (Inr (int (length (index_members st))), st')
                \<and> zCard ''words:all'' st = (Inr (int (length (index_members st))), st))"
  using assms(2)
proof
  assume k: "st ''words:all'' = None"
  then have "getSimilarWords no_others uuid target st = (Inr [], st)"
    using assms(1) by (rule run_alone_absent)
  with k show ?thesis
    by (simp add: index_members_def zCard_def)
next
  assume "\<exists>z. st ''words:all'' = Some (RZSet z)"
  then obtain z where k: "st ''words:all'' = Some (RZSet z)" ..
  let ?s = "startSentinel uuid target" and ?e = "endSentinel uuid target"
  let ?z4 = "zset_remove ?e (zset_remove ?s z)"
  let ?st' = "if ?z4 = [] then st(''words:all'' := None) else st(''words:all'' \<mapsto> RZSet ?z4)"
  from run_alone_zset [of st z target uuid, OF k assms(1)]
  obtain similarWords where run: "getSimilarWords no_others uuid target st = (Inr similarWords, ?st')"
    by blast
  have m: "index_members ?st' = map snd ?z4"
    by (simp add: index_members_def)
  have f: "map snd ?z4 = filter (\<lambda>m. m \<noteq> ?s \<and> m \<noteq> ?e) (index_members st)"
    using k by (simp add: index_members_def map_snd_zset_remove conj_commute)
  have c: "?s \<notin> set (index_members st) \<and> ?e \<notin> set (index_members st) \<Longrightarrow> ?z4 = z"
    using k by (force simp: index_members_def zset_remove_def filter_id_conv)
  have "?s \<notin> set (index_members st) \<and> ?e \<notin> set (index_members st)
        \<longrightarrow> zCard ''words:all'' ?st' = (Inr (int (length (index_members st))), ?st')
          \<and> zCard ''words:all'' st = (Inr (int (length (index_members st))), st)"
  proof
    assume a: "?s \<notin> set (index_members st) \<and> ?e \<notin> set (index_members st)"
    have "zCard ''words:all'' ?st' = (Inr (int (length ?z4)), ?st')"
      by (simp add: zCard_def)
    then show "zCard ''words:all'' ?st' = (Inr (int (length (index_members st))), ?st')
          \<and> zCard ''words:all'' st = (Inr (int (length (index_members st))), st)"
      using k by (simp only: c [OF a]) (simp add: zCard_def index_members_def)
  qed
  with run m f show ?thesis
    by (intro exI [of _ similarWords] exI [of _ ?st']) (simp del: fun_upd_apply)
qed

text \<open>
  Claim C2 says that both sentinels are removed on every exit path, the failure path
  included, so that the cardinality of the index after any query is the word count. On
  the failure path the code throws before the two \<open>zRem\<close>. When another client flushes the
  dictionary between the two insertions of the query \<open>cat\<close>, the rank of the start sentinel
  is \<open>null\<close>, the query throws, and the end sentinel stays in the index: cardinality 1
  over a dictionary that holds no word.
\<close>

theorem getSimilarWords_failure_leaves_sentinel:
  "getSimilarWords (flush_before 2) uuid0 ''cat'' (word_store five_words)
     = (Inl LookupFailed, [''words:all'' \<mapsto> RZSet [(0, endSentinel uuid0 ''cat'')]])
   \<and> index_members [''words:all'' \<mapsto> RZSet [(0, endSentinel uuid0 ''cat'')]]
     = [endSentinel uuid0 ''cat'']
   \<and> zCard ''words:all'' [''words:all'' \<mapsto> RZSet [(0, endSentinel uuid0 ''cat'')]]
     = (Inr 1, [''words:all'' \<mapsto> RZSet [(0, endSentinel uuid0 ''cat'')]])"
proof -
  have gp: "getPrefix ''cat'' = Inr (''cas{'', ''cat{'')"
    by (simp add: getPrefix_def Let_def) code_simp
  show ?thesis
    by (simp add: getSimilarWords_def gp await_def interleave_def flush_before_def del_def
        reject_def zCard_def zAdd_def zRank_def word_store_def endSentinel_def
        zset_insert_def zset_remove_def Let_def index_members_def)
qed

section \<open>Decimal text of integers\<close>

lemma digit_value_digit_char: "d < 10 \<Longrightarrow> digit_value (digit_char d) = Some d"
proof -
  assume "d < 10"
  then have "d \<in> {0, 1, 2, 3, 4, 5, 6, 7, 8, 9}" by auto
  then show ?thesis
    by (auto simp: digit_char_def digit_value_def)
qed

lemma decimal_nonempty: "decimal n \<noteq> []"
  by (subst decimal.simps) simp

lemma digit_char_plain:
  assumes "d < 10"
  shows "is_digit_in 10 (digit_char d) \<and> \<not> white_space (digit_char d)
       \<and> digit_char d \<noteq> CHR ''-'' \<and> digit_char d \<noteq> CHR ''+''
       \<and> digit_char d \<noteq> CHR ''x'' \<and> digit_char d \<noteq> CHR ''X''"
proof -
  from assms have "d \<in> {0, 1, 2, 3, 4, 5, 6, 7, 8, 9}" by auto
  then show ?thesis
    by (auto simp: digit_char_def is_digit_in_def digit_value_def white_space_def)
qed

lemma decimal_chars:
  "list_all (\<lambda>c. is_digit_in 10 c \<and> \<not> white_space c \<and> c \<noteq> CHR ''-'' \<and> c \<noteq> CHR ''+''
                 \<and> c \<noteq> CHR ''x'' \<and> c \<noteq> CHR ''X'') (decimal n)"
proof (induction n rule: decimal.induct)
  case (1 n)
  have "n mod 10 < 10" by simp
  from digit_char_plain [OF this] 1 show ?case
    by (subst decimal.simps) simp
qed

lemma digits_value_snoc:
  "digits_value r (ds @ [c]) = digits_value r ds * r + (case digit_value c of Some d \<Rightarrow> d | None \<Rightarrow> 0)"
  by (simp add: digits_value_def)

lemma digits_value_decimal: "digits_value 10 (decimal n) = n"
proof (induction n rule: decimal.induct)
  case (1 n)
  show ?case
  proof (cases "n div 10 = 0")
    case True
    then show ?thesis
      by (subst decimal.simps) (simp add: digits_value_def digit_value_digit_char)
  next
    case False
    with 1 show ?thesis
      by (subst decimal.simps) (simp add: digits_value_snoc digit_value_digit_char)
  qed
qed

lemma decimal_all_digits: "list_all (is_digit_in 10) (decimal n)"
  using decimal_chars [of n] by (simp add: list_all_iff)

lemma decimal_head:
  "\<not> white_space (hd (decimal n)) \<and> hd (decimal n) \<noteq> CHR ''-'' \<and> hd (decimal n) \<noteq> CHR ''+''"
proof -
  have "hd (decimal n) \<in> set (decimal n)" using decimal_nonempty by simp
  then show ?thesis using decimal_chars [of n] by (simp add: list_all_iff)
qed

lemma decimal_not_hex: "take 2 (decimal n) \<noteq> ''0x'' \<and> take 2 (decimal n) \<noteq> ''0X''"
proof -
  have "\<And>c. c \<in> set (take 2 (decimal n)) \<Longrightarrow> c \<noteq> CHR ''x'' \<and> c \<noteq> CHR ''X''"
    using decimal_chars [of n] by (auto simp: list_all_iff dest!: in_set_takeD)
  then show ?thesis by force
qed

lemma parseInt_decimal: "parseInt (decimal n) = Num (int n)"
proof -
  have 1: "dropWhile white_space (decimal n) = decimal n"
    using decimal_head [of n] decimal_nonempty [of n] by (cases "decimal n") simp_all
  have 2: "takeWhile (is_digit_in 10) (decimal n) = decimal n"
    using decimal_all_digits [of n] by (simp add: list_all_iff)
  show ?thesis
    using decimal_head [of n] decimal_nonempty [of n] decimal_not_hex [of n]
    by (simp add: parseInt_def 1 2 Let_def digits_value_decimal)
qed

lemma parseInt_toString: "parseInt (toString i) = Num i"
proof (cases "i < 0")
  case False
  then show ?thesis by (simp add: toString_def parseInt_decimal)
next
  case True
  have 2: "takeWhile (is_digit_in 10) (decimal (nat (- i))) = decimal (nat (- i))"
    using decimal_all_digits [of "nat (- i)"] by (simp add: list_all_iff)
  have w: "\<not> white_space (CHR ''-'')" by (simp add: white_space_def)
  show ?thesis
    using True decimal_nonempty [of "nat (- i)"] decimal_not_hex [of "nat (- i)"]
    by (simp add: toString_def parseInt_def Let_def w 2 digits_value_decimal)
qed

lemma toString_nonempty: "toString i \<noteq> []"
  by (simp add: toString_def decimal_nonempty)

text \<open>Between \<open>-2^53\<close> and \<open>2^53\<close> a reply is the number that is resolved, and its text is the
  decimal text of the integer.\<close>

lemma toNumber_exact: "\<bar>n\<bar> \<le> 2 ^ 53 \<Longrightarrow> toNumber n = n"
  by (simp add: toNumber_def)


lemma numberToString_nonempty: "numberToString v \<noteq> []"
  by (simp add: numberToString_def toString_nonempty decimal_nonempty)

lemma string2ll_toString: "string2ll s = Some n \<Longrightarrow> s = toString n"
  by (auto simp: string2ll_def Let_def split: if_splits)

lemma string2ll_parseInt: "string2ll s = Some n \<Longrightarrow> s \<noteq> [] \<and> parseInt s = Num n"
  using string2ll_toString [of s n] by (auto simp: parseInt_toString toString_nonempty)

section \<open>Calls that return normally\<close>

lemma await_Inr:
  "(await m f st = (Inr y, st')) = (\<exists>x st1. m st = (Inr x, st1) \<and> f x st1 = (Inr y, st'))"
  by (cases "m st") (auto simp: await_def split: sum.splits)

lemma resolve_eq: "(resolve x st = (Inr y, st')) = (y = x \<and> st' = st)"
  by (auto simp: resolve_def)

subsection \<open>What a command that succeeded found and left\<close>

lemma incr_Inr:
  assumes "incr key st = (Inr n, st')"
  shows "\<exists>m. n = toNumber m \<and> st' = st(key \<mapsto> RString (toString m))
           \<and> (st key = None \<and> m = 1
                \<or> (\<exists>s c. st key = Some (RString s) \<and> string2ll s = Some c \<and> m = c + 1))"
proof (cases "st key")
  case None
  with assms show ?thesis by (auto simp: incr_def)
next
  case (Some v)
  with assms show ?thesis
    by (cases v) (auto simp: incr_def split: option.splits if_splits)
qed

lemma hSet_Inr:
  assumes "hSet key fs st = (Inr x, st')"
  shows "\<exists>h. (st key = None \<and> h = Map.empty \<or> st key = Some (RHash h))
           \<and> st' = st(key \<mapsto> RHash (h ++ map_of (rev fs)))"
  using assms
  by (auto simp: hSet_def split: option.splits rvalue.splits)

lemma zAdd_Inr:
  assumes "zAdd key score member st = (Inr x, st')"
  shows "\<exists>z. (st key = None \<and> z = [] \<or> st key = Some (RZSet z))
           \<and> st' = st(key \<mapsto> RZSet (zset_insert score member z))"
  using assms
  by (auto simp: zAdd_def zset_insert_def zset_remove_def split: option.splits rvalue.splits)

lemma sAdd_Inr:
  assumes "sAdd key member st = (Inr x, st')"
  shows "\<exists>s. (st key = None \<and> s = {} \<or> st key = Some (RSet s))
           \<and> st' = st(key \<mapsto> RSet (insert member s))"
  using assms
  by (auto simp: sAdd_def split: option.splits rvalue.splits)

lemma zIncrBy_Inr:
  assumes "zIncrBy key increment member st = (Inr x, st')"
  shows "\<exists>z. (st key = None \<and> z = [] \<or> st key = Some (RZSet z))
           \<and> st' = st(key \<mapsto> RZSet (zset_insert
                   ((case zset_score z member of None \<Rightarrow> 0 | Some s \<Rightarrow> s) + increment) member z))"
  using assms
  by (auto simp: zIncrBy_def zset_insert_def zset_remove_def Let_def split: option.splits rvalue.splits)

lemma hIncrBy_Inr:
  assumes "hIncrBy key field delta st = (Inr x, st')"
  shows "\<exists>h n. (st key = None \<and> h = Map.empty \<or> st key = Some (RHash h))
           \<and> (case h field of None \<Rightarrow> Some 0 | Some s \<Rightarrow> string2ll s) = Some n
           \<and> st' = st(key \<mapsto> RHash (h(field \<mapsto> toString (n + delta))))"
proof (cases "st key")
  case None
  with assms show ?thesis by (auto simp: hIncrBy_def)
next
  case (Some v)
  show ?thesis
  proof (cases v)
    case (RHash h)
    with Some assms obtain n where
      "(case h field of None \<Rightarrow> Some 0 | Some s \<Rightarrow> string2ll s) = Some n"
      "st' = st(key \<mapsto> RHash (h(field \<mapsto> toString (n + delta))))"
      by (cases "case h field of None \<Rightarrow> Some 0 | Some s \<Rightarrow> string2ll s")
        (auto simp: hIncrBy_def split: if_splits)
    with Some RHash show ?thesis by blast
  qed (use Some assms in \<open>auto simp: hIncrBy_def\<close>)
qed

subsection \<open>Scores in a sorted set\<close>


lemma zset_score_insort_same:
  "m \<notin> snd ` set z \<Longrightarrow> zset_score (insort (s, m) z) m = Some s"
  by (induction z) auto


lemma zset_score_insert_same: "zset_score (zset_insert s m z) m = Some s"
  unfolding zset_insert_def
  by (rule zset_score_insort_same) (simp add: members_zset_remove)


lemma postVote_Inr:
  assumes "postVote b u st = (Inr x, st')"
  shows "\<exists>s z h n.
           (st (''article:voted:'' @ b) = None \<and> s = {} \<or> st (''article:voted:'' @ b) = Some (RSet s))
         \<and> (st ''article:score'' = None \<and> z = [] \<or> st ''article:score'' = Some (RZSet z))
         \<and> (st (''article:'' @ b) = None \<and> h = Map.empty \<or> st (''article:'' @ b) = Some (RHash h))
         \<and> (case h ''votes'' of None \<Rightarrow> Some 0 | Some v \<Rightarrow> string2ll v) = Some n
         \<and> st' = st(''article:voted:'' @ b \<mapsto> RSet (insert u s),
                    ''article:score'' \<mapsto> RZSet (zset_insert
                       ((case zset_score z b of None \<Rightarrow> 0 | Some s \<Rightarrow> s) + 432) b z),
                    ''article:'' @ b \<mapsto> RHash (h(''votes'' \<mapsto> toString (n + 1))))"
proof -
  from assms obtain st1 st2 x1 x2 x3 where
    1: "sAdd (''article:voted:'' @ b) u st = (Inr x1, st1)" and
    2: "zIncrBy ''article:score'' 432 b st1 = (Inr x2, st2)" and
    3: "hIncrBy (''article:'' @ b) ''votes'' 1 st2 = (Inr x3, st')"
    unfolding postVote_def await_Inr resolve_eq by blast
  from sAdd_Inr [OF 1] obtain s where
    s: "st (''article:voted:'' @ b) = None \<and> s = {} \<or> st (''article:voted:'' @ b) = Some (RSet s)"
    and st1: "st1 = st(''article:voted:'' @ b \<mapsto> RSet (insert u s))" by blast
  from zIncrBy_Inr [OF 2] obtain z where
    z: "st1 ''article:score'' = None \<and> z = [] \<or> st1 ''article:score'' = Some (RZSet z)"
    and st2: "st2 = st1(''article:score'' \<mapsto> RZSet (zset_insert
                       ((case zset_score z b of None \<Rightarrow> 0 | Some s \<Rightarrow> s) + 432) b z))" by blast
  from hIncrBy_Inr [OF 3] obtain h n where
    h: "st2 (''article:'' @ b) = None \<and> h = Map.empty \<or> st2 (''article:'' @ b) = Some (RHash h)"
    and n: "(case h ''votes'' of None \<Rightarrow> Some 0 | Some v \<Rightarrow> string2ll v) = Some n"
    and st': "st' = st2(''article:'' @ b \<mapsto> RHash (h(''votes'' \<mapsto> toString (n + 1))))" by blast
  have z0: "st ''article:score'' = None \<and> z = [] \<or> st ''article:score'' = Some (RZSet z)"
    using z unfolding st1 by (auto split: if_splits)
  have h0: "st (''article:'' @ b) = None \<and> h = Map.empty \<or> st (''article:'' @ b) = Some (RHash h)"
    using h unfolding st2 st1 by (auto split: if_splits)
  show ?thesis
    using s z0 h0 n st' st2 st1 by blast
qed

lemma toArticle_eq:
  "toArticle obj =
     (case (obj ''id'', obj ''title'', obj ''userId'', obj ''link'', obj ''timestamp'') of
        (Some i, Some t, Some u, Some l, Some ts) \<Rightarrow>
          Inr \<lparr> id' = i, title = t, userId = u, link = l,
                votes = (case obj ''votes'' of
                           None \<Rightarrow> Num 0
                         | Some x \<Rightarrow> if x = [] then Num 0 else parseInt x),
                timestamp = parseInt ts \<rparr>
      | _ \<Rightarrow> Inl ZodError)"
  by (simp add: toArticle_def articleSchema_def z_string_def z_votes_def split: option.splits)


lemma toArticle_votes:
  "toArticle h = Inr a \<Longrightarrow>
   votes a = (case h ''votes'' of None \<Rightarrow> Num 0 | Some x \<Rightarrow> if x = [] then Num 0 else parseInt x)"
  by (auto simp: toArticle_eq split: option.splits)

lemma toArticle_empty: "toArticle Map.empty = Inl ZodError"
  by (simp add: toArticle_eq)


lemma postArticle_run:
  assumes "postArticle now t l u st = (Inr articleId, st')"
  shows "\<exists>m st1 st2 st3 x1 x2 x3.
           articleId = numberToString (toNumber m)
         \<and> (st ''article:'' = None \<and> m = 1
              \<or> (\<exists>s c. st ''article:'' = Some (RString s) \<and> string2ll s = Some c \<and> m = c + 1))
         \<and> st1 = st(''article:'' \<mapsto> RString (toString m))
         \<and> hSet (''article:'' @ articleId)
               [(''id'', articleId), (''title'', t), (''link'', l), (''userId'', u),
                (''timestamp'', toString (now div 1000))] st1 = (Inr x1, st2)
         \<and> zAdd ''article:created'' (now div 1000) articleId st2 = (Inr x2, st3)
         \<and> zAdd ''article:score'' (now div 1000) articleId st3 = (Inr x3, st')"
proof -
  from assms obtain n st1 st2 st3 x1 x2 x3 where
    1: "incr ''article:'' st = (Inr n, st1)" and
    2: "hSet (''article:'' @ numberToString n)
          [(''id'', numberToString n), (''title'', t), (''link'', l), (''userId'', u),
           (''timestamp'', toString (now div 1000))] st1 = (Inr x1, st2)" and
    3: "zAdd ''article:created'' (now div 1000) (numberToString n) st2 = (Inr x2, st3)" and
    4: "zAdd ''article:score'' (now div 1000) (numberToString n) st3 = (Inr x3, st')" and
    a: "articleId = numberToString n"
    unfolding postArticle_def await_Inr resolve_eq Let_def by blast
  from incr_Inr [OF 1] obtain m where
    n: "n = toNumber m" and st1: "st1 = st(''article:'' \<mapsto> RString (toString m))"
    and m: "st ''article:'' = None \<and> m = 1
            \<or> (\<exists>s c. st ''article:'' = Some (RString s) \<and> string2ll s = Some c \<and> m = c + 1)"
    by blast
  from 2 3 4 a n st1 m show ?thesis by blast
qed

lemma postArticle_Inr:
  assumes "postArticle now t l u st = (Inr articleId, st')"
  shows "\<exists>m h zc zs.
           articleId = numberToString (toNumber m)
         \<and> (st ''article:'' = None \<and> m = 1
              \<or> (\<exists>s c. st ''article:'' = Some (RString s) \<and> string2ll s = Some c \<and> m = c + 1))
         \<and> (st (''article:'' @ articleId) = None \<and> h = Map.empty
              \<or> st (''article:'' @ articleId) = Some (RHash h))
         \<and> st' (''article:'' @ articleId)
             = Some (RHash (h ++ map_of (rev [(''id'', articleId), (''title'', t), (''link'', l),
                  (''userId'', u), (''timestamp'', toString (now div 1000))])))
         \<and> st' ''article:score'' = Some (RZSet (zset_insert (now div 1000) articleId zs))
         \<and> st' ''article:created'' = Some (RZSet (zset_insert (now div 1000) articleId zc))
         \<and> st' ''article:'' = Some (RString (toString m))"
proof -
  from postArticle_run [OF assms] obtain m st1 st2 st3 x1 x2 x3 where
    a: "articleId = numberToString (toNumber m)" and
    m: "st ''article:'' = None \<and> m = 1
        \<or> (\<exists>s c. st ''article:'' = Some (RString s) \<and> string2ll s = Some c \<and> m = c + 1)" and
    st1: "st1 = st(''article:'' \<mapsto> RString (toString m))" and
    2: "hSet (''article:'' @ articleId)
          [(''id'', articleId), (''title'', t), (''link'', l), (''userId'', u),
           (''timestamp'', toString (now div 1000))] st1 = (Inr x1, st2)" and
    3: "zAdd ''article:created'' (now div 1000) articleId st2 = (Inr x2, st3)" and
    4: "zAdd ''article:score'' (now div 1000) articleId st3 = (Inr x3, st')"
    by blast
  from hSet_Inr [OF 2] obtain h where
    h: "st1 (''article:'' @ articleId) = None \<and> h = Map.empty
        \<or> st1 (''article:'' @ articleId) = Some (RHash h)"
    and st2: "st2 = st1(''article:'' @ articleId \<mapsto> RHash (h ++ map_of (rev
          [(''id'', articleId), (''title'', t), (''link'', l), (''userId'', u),
           (''timestamp'', toString (now div 1000))])))" by blast
  from zAdd_Inr [OF 3] obtain zc where
    zc: "st2 ''article:created'' = None \<and> zc = [] \<or> st2 ''article:created'' = Some (RZSet zc)"
    and st3: "st3 = st2(''article:created'' \<mapsto> RZSet (zset_insert (now div 1000) articleId zc))"
    by blast
  from zAdd_Inr [OF 4] obtain zs where
    zs: "st3 ''article:score'' = None \<and> zs = [] \<or> st3 ''article:score'' = Some (RZSet zs)"
    and st': "st' = st3(''article:score'' \<mapsto> RZSet (zset_insert (now div 1000) articleId zs))"
    by blast
  have k0: "''article:'' @ articleId \<noteq> ''article:''"
    by (simp add: a numberToString_nonempty)
  have k1: "''article:'' @ articleId \<noteq> ''article:created''"
    using zc unfolding st2 by (auto split: if_splits)
  have k2: "''article:'' @ articleId \<noteq> ''article:score''"
    using zs unfolding st3 st2 by (auto split: if_splits)
  have h0: "st (''article:'' @ articleId) = None \<and> h = Map.empty
        \<or> st (''article:'' @ articleId) = Some (RHash h)"
    using h k0 unfolding st1 by simp
  have "st' (''article:'' @ articleId)
             = Some (RHash (h ++ map_of (rev [(''id'', articleId), (''title'', t), (''link'', l),
                  (''userId'', u), (''timestamp'', toString (now div 1000))])))"
    and "st' ''article:score'' = Some (RZSet (zset_insert (now div 1000) articleId zs))"
    and "st' ''article:created'' = Some (RZSet (zset_insert (now div 1000) articleId zc))"
    and "st' ''article:'' = Some (RString (toString m))"
    using k0 k1 k2 unfolding st' st3 st2 st1 by simp_all
  with a m h0 show ?thesis by blast
qed

lemma toArticle_posted:
  assumes "h ''votes'' = None"
  shows "toArticle (h ++ map_of (rev [(''id'', i), (''title'', t), (''link'', l),
                  (''userId'', u), (''timestamp'', toString ts)]))
         = Inr \<lparr> id' = i, title = t, userId = u, link = l, votes = Num 0, timestamp = Num ts \<rparr>"
  using assms by (simp add: toArticle_eq map_add_def parseInt_toString)

lemma postArticle_fresh:
  assumes run: "postArticle now t l u st = (Inr articleId, st')"
    and fresh: "votes_field st articleId = None"
  shows "votes_field st' articleId = None
       \<and> stored_article st' articleId
           = Inr \<lparr> id' = articleId, title = t, userId = u, link = l, votes = Num 0,
                   timestamp = Num (now div 1000) \<rparr>
       \<and> stored_score st' articleId = Some (now div 1000)"
proof -
  from postArticle_Inr [OF run] obtain m h zc zs where
    h: "st (''article:'' @ articleId) = None \<and> h = Map.empty
              \<or> st (''article:'' @ articleId) = Some (RHash h)"
    and kh: "st' (''article:'' @ articleId)
             = Some (RHash (h ++ map_of (rev [(''id'', articleId), (''title'', t), (''link'', l),
                  (''userId'', u), (''timestamp'', toString (now div 1000))])))"
    and ks: "st' ''article:score'' = Some (RZSet (zset_insert (now div 1000) articleId zs))"
    by blast
  from h fresh have v: "h ''votes'' = None"
    by (auto simp: votes_field_def)
  have 1: "votes_field st' articleId = None"
    using v kh by (simp add: votes_field_def map_add_def)
  have 2: "stored_article st' articleId
           = Inr \<lparr> id' = articleId, title = t, userId = u, link = l, votes = Num 0,
                   timestamp = Num (now div 1000) \<rparr>"
    using toArticle_posted [of h articleId t l u "now div 1000", OF v] kh
    by (simp add: stored_article_def hGetAll_def)
  have 3: "stored_score st' articleId = Some (now div 1000)"
    by (simp add: stored_score_def ks zset_score_insert_same)
  from 1 2 3 show ?thesis by blast
qed


lemma postArticle_other_article:
  assumes run: "postArticle now t l u st = (Inr articleId, st')" and ab: "a \<noteq> articleId"
    and ha: "st (''article:'' @ a) = Some (RHash h)"
  shows "st' (''article:'' @ a) = Some (RHash h)"
proof -
  from postArticle_run [OF run] obtain m st1 st2 st3 x1 x2 x3 where
    m: "st ''article:'' = None \<and> m = 1
        \<or> (\<exists>s c. st ''article:'' = Some (RString s) \<and> string2ll s = Some c \<and> m = c + 1)" and
    st1: "st1 = st(''article:'' \<mapsto> RString (toString m))" and
    2: "hSet (''article:'' @ articleId)
          [(''id'', articleId), (''title'', t), (''link'', l), (''userId'', u),
           (''timestamp'', toString (now div 1000))] st1 = (Inr x1, st2)" and
    3: "zAdd ''article:created'' (now div 1000) articleId st2 = (Inr x2, st3)" and
    4: "zAdd ''article:score'' (now div 1000) articleId st3 = (Inr x3, st')"
    by blast
  from m ha have k0: "''article:'' @ a \<noteq> ''article:''" by auto
  have s1: "st1 (''article:'' @ a) = Some (RHash h)"
    using k0 ha unfolding st1 by simp
  have s2: "st2 (''article:'' @ a) = Some (RHash h)"
    using hSet_Inr [OF 2] s1 ab by auto
  have s3: "st3 (''article:'' @ a) = Some (RHash h)"
    using zAdd_Inr [OF 3] s2 by auto
  show ?thesis
    using zAdd_Inr [OF 4] s3 by auto
qed

section \<open>Example runs, evaluated\<close>

lemmas run_defs = await_def resolve_def reject_def incr_def hSet_def hIncrBy_def hGetAll_def
  sAdd_def zAdd_def zIncrBy_def zRange_def zset_insert_def zset_remove_def
  toNumber_def numberToString_def toString_def decimal.simps digit_char_def Let_def

lemma string2ll_1: "string2ll ''1'' = Some 1"
  by (simp add: string2ll_def is_digit_in_def digit_value_def digits_value_def run_defs)

lemma parseInt_examples:
  "parseInt ''1'' = Num 1" "parseInt ''2'' = Num 2" "parseInt ''1730000000'' = Num 1730000000"
  using parseInt_toString [of 1] parseInt_toString [of 2] parseInt_toString [of 1730000000]
  by (simp_all add: toString_def decimal.simps digit_char_def)

lemma posted_eq:
  "posted = (Inr ''1'',
     [''article:'' \<mapsto> RString ''1'',
      ''article:1'' \<mapsto> RHash [''id'' \<mapsto> ''1'', ''title'' \<mapsto> ''Test Article'',
          ''link'' \<mapsto> ''https://test.com/article'', ''userId'' \<mapsto> ''user1'',
          ''timestamp'' \<mapsto> ''1730000000''],
      ''article:created'' \<mapsto> RZSet [(1730000000, ''1'')],
      ''article:score'' \<mapsto> RZSet [(1730000000, ''1'')]])"
  by (simp add: posted_def postArticle_def run_defs)

lemma voted_once_eq:
  "voted_once = (Inr (),
     [''article:'' \<mapsto> RString ''1'',
      ''article:1'' \<mapsto> RHash [''id'' \<mapsto> ''1'', ''title'' \<mapsto> ''Test Article'',
          ''link'' \<mapsto> ''https://test.com/article'', ''userId'' \<mapsto> ''user1'',
          ''timestamp'' \<mapsto> ''1730000000'', ''votes'' \<mapsto> ''1''],
      ''article:created'' \<mapsto> RZSet [(1730000000, ''1'')],
      ''article:score'' \<mapsto> RZSet [(1730000432, ''1'')],
      ''article:voted:1'' \<mapsto> RSet {''user2''}])"
  by (simp add: voted_once_def posted_eq postVote_def run_defs fun_upd_twist)

lemma voted_twice_eq:
  "voted_twice = (Inr (),
     [''article:'' \<mapsto> RString ''1'',
      ''article:1'' \<mapsto> RHash [''id'' \<mapsto> ''1'', ''title'' \<mapsto> ''Test Article'',
          ''link'' \<mapsto> ''https://test.com/article'', ''userId'' \<mapsto> ''user1'',
          ''timestamp'' \<mapsto> ''1730000000'', ''votes'' \<mapsto> ''2''],
      ''article:created'' \<mapsto> RZSet [(1730000000, ''1'')],
      ''article:score'' \<mapsto> RZSet [(1730000864, ''1'')],
      ''article:voted:1'' \<mapsto> RSet {''user2''}])"
  by (simp add: voted_twice_def voted_once_eq postVote_def run_defs string2ll_1 fun_upd_twist)

lemma voted_other_eq:
  "voted_other = (Inr (),
     [''article:'' \<mapsto> RString ''1'',
      ''article:1'' \<mapsto> RHash [''id'' \<mapsto> ''1'', ''title'' \<mapsto> ''Test Article'',
          ''link'' \<mapsto> ''https://test.com/article'', ''userId'' \<mapsto> ''user1'',
          ''timestamp'' \<mapsto> ''1730000000''],
      ''article:2'' \<mapsto> RHash [''votes'' \<mapsto> ''1''],
      ''article:created'' \<mapsto> RZSet [(1730000000, ''1'')],
      ''article:score'' \<mapsto> RZSet [(432, ''2''), (1730000000, ''1'')],
      ''article:voted:2'' \<mapsto> RSet {''user2''}])"
  by (simp add: voted_other_def posted_eq postVote_def run_defs fun_upd_twist)

lemma posted_second_eq:
  "posted_second = (Inr ''2'',
     [''article:'' \<mapsto> RString ''2'',
      ''article:1'' \<mapsto> RHash [''id'' \<mapsto> ''1'', ''title'' \<mapsto> ''Test Article'',
          ''link'' \<mapsto> ''https://test.com/article'', ''userId'' \<mapsto> ''user1'',
          ''timestamp'' \<mapsto> ''1730000000''],
      ''article:2'' \<mapsto> RHash [''id'' \<mapsto> ''2'', ''title'' \<mapsto> ''Second Article'',
          ''link'' \<mapsto> ''https://test.com/2'', ''userId'' \<mapsto> ''user2'',
          ''timestamp'' \<mapsto> ''1730000001''],
      ''article:created'' \<mapsto> RZSet [(1730000000, ''1''), (1730000001, ''2'')],
      ''article:score'' \<mapsto> RZSet [(1730000000, ''1''), (1730000001, ''2'')]])"
  by (simp add: posted_second_def posted_eq postArticle_def run_defs string2ll_1 fun_upd_twist)

lemma postArticle_second:
  "postArticle 1730000001000 ''Second Article'' ''https://test.com/2'' ''user2'' (snd posted)
   = (Inr ''2'', snd posted_second)"
  by (simp add: posted_second_def [symmetric] posted_second_eq)










lemma fst_posted: "fst posted = Inr ''1''" and votes_field_empty: "votes_field Map.empty ''1'' = None"
  by (simp_all add: posted_eq votes_field_def)

lemma postArticle_posted:
  "postArticle 1730000000000 ''Test Article'' ''https://test.com/article'' ''user1'' Map.empty
   = (Inr ''1'', snd posted)"
  using fst_posted by (simp add: posted_def [symmetric] prod_eq_iff)

lemma stored_article_posted:
  "stored_article (snd posted) ''1''
   = Inr \<lparr> id' = ''1'', title = ''Test Article'', userId = ''user1'',
           link = ''https://test.com/article'', votes = Num 0, timestamp = Num 1730000000 \<rparr>"
  by (simp add: posted_eq stored_article_def hGetAll_def toArticle_eq parseInt_examples)

section \<open>Sequences of calls\<close>

text \<open>Reading hashes changes nothing; a vote leaves the hash of another article as it was.\<close>

lemma promise_all_hGetAll:
  assumes "promise_all (map (\<lambda>x. hGetAll (k x)) ids) st = (Inr raw, st')"
  shows "st' = st \<and> map (\<lambda>x. fst (hGetAll (k x) st)) ids = map Inr raw"
  using assms
proof (induction ids arbitrary: raw)
  case Nil
  then show ?case by (simp add: resolve_def)
next
  case (Cons i ids)
  from Cons.prems obtain x st1 xs st2 where
    1: "hGetAll (k i) st = (Inr x, st1)" and
    2: "promise_all (map (\<lambda>x. hGetAll (k x)) ids) st1 = (Inr xs, st2)" and
    3: "raw = x # xs" "st' = st2"
    by (auto simp: await_Inr resolve_eq)
  from 1 have st1: "st1 = st"
    by (auto simp: hGetAll_def split: option.splits rvalue.splits)
  from Cons.IH [of xs] 2 3 st1 have "st' = st" "map (\<lambda>x. fst (hGetAll (k x) st)) ids = map Inr xs"
    by simp_all
  with 1 3 show ?case by simp
qed

lemma postVote_other_article:
  assumes run: "postVote b u st = (Inr x, st')" and ab: "a \<noteq> b"
    and ha: "st (''article:'' @ a) = Some (RHash h)"
  shows "st' (''article:'' @ a) = Some (RHash h)"
proof -
  from postVote_Inr [OF run] obtain s z hb n where
    s: "st (''article:voted:'' @ b) = None \<and> s = {} \<or> st (''article:voted:'' @ b) = Some (RSet s)"
    and z: "st ''article:score'' = None \<and> z = [] \<or> st ''article:score'' = Some (RZSet z)"
    and st': "st' = st(''article:voted:'' @ b \<mapsto> RSet (insert u s),
                    ''article:score'' \<mapsto> RZSet (zset_insert
                       ((case zset_score z b of None \<Rightarrow> 0 | Some s \<Rightarrow> s) + 432) b z),
                    ''article:'' @ b \<mapsto> RHash (hb(''votes'' \<mapsto> toString (n + 1))))"
    by blast
  have "''article:'' @ a \<noteq> ''article:score''" using ha z by auto
  moreover have "''article:'' @ a \<noteq> ''article:voted:'' @ b" using ha s by auto
  ultimately show ?thesis
    unfolding st' using ab ha by simp
qed





lemma getTopArticles_store:
  assumes "getTopArticles m g st = (Inr articles, st')"
  shows "st' = st"
proof -
  from assms obtain ids st1 raw st2 where
    1: "zRange ''article:score'' 0 100 True st = (Inr ids, st1)" and
    2: "promise_all (map (\<lambda>x. hGetAll (''article:'' @ x)) ids) st1 = (Inr raw, st2)" and
    3: "(case map_toArticle raw of Inl e \<Rightarrow> reject e | Inr as \<Rightarrow> resolve as) st2
        = (Inr articles, st')"
    unfolding getTopArticles_def await_Inr by blast
  from 1 have "st1 = st"
    by (auto simp: zRange_def split: option.splits rvalue.splits)
  moreover from promise_all_hGetAll [OF 2] have "st2 = st1" by simp
  moreover from 3 have "st' = st2"
    by (cases "map_toArticle raw"; simp add: resolve_def reject_def)
  ultimately show ?thesis by simp
qed










text \<open>Whatever the counter is: an article whose hash has no \<open>votes\<close> field and decodes keeps
  both across the calls that are not votes for it, also across the creation of an article
  that is given the same id.\<close>

lemma votes_on_nonneg: "0 \<le> votes_on a cs"
  by (induction a cs rule: votes_on.induct) simp_all

lemma unvoted_kept_by_post:
  assumes run: "postArticle now t l u st = (Inr id2, st')"
    and h: "st (''article:'' @ a) = Some (RHash h)" and v: "h ''votes'' = None"
    and d: "toArticle h = Inr art"
  shows "\<exists>h' art'. st' (''article:'' @ a) = Some (RHash h') \<and> h' ''votes'' = None
           \<and> toArticle h' = Inr art'"
proof (cases "a = id2")
  case False
  from postArticle_other_article [OF run False h] v d show ?thesis by blast
next
  case True
  from postArticle_Inr [OF run] obtain h0 where
    h0: "st (''article:'' @ id2) = None \<and> h0 = Map.empty
         \<or> st (''article:'' @ id2) = Some (RHash h0)"
    and kh: "st' (''article:'' @ id2)
             = Some (RHash (h0 ++ map_of (rev [(''id'', id2), (''title'', t), (''link'', l),
                  (''userId'', u), (''timestamp'', toString (now div 1000))])))"
    by blast
  from h0 h True have "h0 = h" by auto
  with kh True v toArticle_posted [of h id2 t l u "now div 1000", OF v] show ?thesis
    by (auto simp: map_add_def)
qed

lemma unvoted_after:
  assumes "after cs st1 = Some st2" and "votes_on a cs = 0"
    and "st1 (''article:'' @ a) = Some (RHash h)" and "h ''votes'' = None"
    and "toArticle h = Inr art"
  shows "\<exists>h' art'. st2 (''article:'' @ a) = Some (RHash h') \<and> h' ''votes'' = None
           \<and> toArticle h' = Inr art'"
  using assms
proof (induction cs arbitrary: st1 h art)
  case Nil
  then show ?case by auto
next
  case (Cons c cs)
  show ?case
  proof (cases c)
    case (PostArticle now t l u)
    with Cons.prems(1) obtain id2 st' where
      run: "postArticle now t l u st1 = (Inr id2, st')" and rest: "after cs st' = Some st2"
      by (auto split: prod.splits sum.splits)
    from Cons.prems(2) PostArticle have n: "votes_on a cs = 0" by simp
    from unvoted_kept_by_post [OF run Cons.prems(3-5)] obtain h' art' where
      "st' (''article:'' @ a) = Some (RHash h')" "h' ''votes'' = None" "toArticle h' = Inr art'"
      by blast
    from Cons.IH [OF rest n this] show ?thesis .
  next
    case (PostVote b u)
    with Cons.prems(1) obtain x st' where
      run: "postVote b u st1 = (Inr x, st')" and rest: "after cs st' = Some st2"
      by (auto split: prod.splits sum.splits)
    from Cons.prems(2) PostVote votes_on_nonneg [of a cs]
    have ne: "a \<noteq> b" and n: "votes_on a cs = 0"
      by (auto split: if_splits)
    from postVote_other_article [OF run ne Cons.prems(3)]
    have "st' (''article:'' @ a) = Some (RHash h)" .
    from Cons.IH [OF rest n this Cons.prems(4,5)] show ?thesis .
  next
    case (UpdateArticleGroups b adds removes)
    with Cons.prems(1) have rest: "after cs st1 = Some st2"
      by (simp add: updateArticleGroups_def resolve_def)
    from Cons.prems(2) UpdateArticleGroups have n: "votes_on a cs = 0" by simp
    from Cons.IH [OF rest n Cons.prems(3-5)] show ?thesis .
  next
    case (GetTopArticles m g)
    with Cons.prems(1) obtain articles st' where
      run: "getTopArticles m g st1 = (Inr articles, st')" and rest: "after cs st' = Some st2"
      by (auto split: prod.splits sum.splits)
    from getTopArticles_store [OF run] rest have rest': "after cs st1 = Some st2" by simp
    from Cons.prems(2) GetTopArticles have n: "votes_on a cs = 0" by simp
    from Cons.IH [OF rest' n Cons.prems(3-5)] show ?thesis .
  qed
qed

lemma unvoted_created_then_after:
  assumes run: "postArticle now t l u st = (Inr a, st1)" and fresh: "votes_field st a = None"
    and cs: "after cs st1 = Some st2" and n: "votes_on a cs = 0"
  shows "votes_field st2 a = None
       \<and> (\<exists>art. stored_article st2 a = Inr art \<and> votes art = Num 0)"
proof -
  from postArticle_fresh [OF run fresh]
  have "votes_field st1 a = None" and "\<exists>art. stored_article st1 a = Inr art"
    by simp_all
  then obtain h art where "st1 (''article:'' @ a) = Some (RHash h)" "h ''votes'' = None"
    "toArticle h = Inr art"
    by (auto simp: stored_article_def hGetAll_def votes_field_def toArticle_empty
        split: option.splits rvalue.splits)
  from unvoted_after [OF cs n this] obtain h' art' where
    h': "st2 (''article:'' @ a) = Some (RHash h')" and v: "h' ''votes'' = None"
    and d: "toArticle h' = Inr art'"
    by blast
  from toArticle_votes [OF d] v have "votes art' = Num 0" by simp
  with h' v d show ?thesis
    by (simp add: votes_field_def stored_article_def hGetAll_def)
qed

section \<open>Score and votes\<close>




text \<open>
  Claim C4 says that two votes of one user on one article leave \<open>voteCount\<close> at 1. In the
  code \<open>postVote\<close> adds the user to the set of voters and never reads the answer of \<open>sAdd\<close>:
  after the first vote the set holds \<open>user2\<close>, the second vote of \<open>user2\<close> returns normally,
  and the article has 2 votes and the score \<open>timestamp + 2 * SCORE_PER_VOTE\<close>.
\<close>

theorem second_vote_of_same_user_counts:
  "fst posted = Inr ''1'' \<and> fst voted_once = Inr () \<and> fst voted_twice = Inr ()
   \<and> snd voted_once ''article:voted:1'' = Some (RSet {''user2''})
   \<and> stored_article (snd voted_twice) ''1''
       = Inr \<lparr> id' = ''1'', title = ''Test Article'', userId = ''user1'',
               link = ''https://test.com/article'', votes = Num 2, timestamp = Num 1730000000 \<rparr>
   \<and> stored_score (snd voted_twice) ''1'' = Some (1730000000 + 2 * SCORE_PER_VOTE)"
  by (simp add: posted_eq voted_once_eq voted_twice_eq stored_article_def
      stored_score_def hGetAll_def toArticle_eq parseInt_examples SCORE_PER_VOTE_def)

text \<open>
  Claim C5 says that a vote at or after \<open>VOTING_WINDOW\<close> seconds past the creation is
  rejected and changes nothing. \<open>postVote\<close> reads no clock and no timestamp: for the article
  created at second 1730000000, a vote cast at second 1730000006, when the window of 5
  seconds has passed, returns normally as at any other time, and the article has 1 vote and
  the score \<open>timestamp + SCORE_PER_VOTE\<close>.
\<close>

theorem vote_after_window_is_applied:
  "stored_article (snd posted) ''1''
       = Inr \<lparr> id' = ''1'', title = ''Test Article'', userId = ''user1'',
               link = ''https://test.com/article'', votes = Num 0, timestamp = Num 1730000000 \<rparr>
   \<and> stored_score (snd posted) ''1'' = Some 1730000000
   \<and> VOTING_WINDOW \<le> 1730000006 - 1730000000
   \<and> fst voted_once = Inr ()
   \<and> stored_article (snd voted_once) ''1''
       = Inr \<lparr> id' = ''1'', title = ''Test Article'', userId = ''user1'',
               link = ''https://test.com/article'', votes = Num 1, timestamp = Num 1730000000 \<rparr>
   \<and> stored_score (snd voted_once) ''1'' = Some (1730000000 + SCORE_PER_VOTE)"
  by (simp add: posted_eq voted_once_eq stored_article_def
      stored_score_def hGetAll_def toArticle_eq parseInt_examples SCORE_PER_VOTE_def
      VOTING_WINDOW_def)

section \<open>Groups\<close>

text \<open>
  Claim C8 says that \<open>updateArticleGroups\<close> is idempotent and reports success. The code is
  a placeholder: for every article and every two lists of groups it returns \<open>false\<close> and
  leaves the store as it was, so that no membership is ever added.
\<close>

theorem updateArticleGroups_returns_false:
  "updateArticleGroups articleId addToGroups removeFromGroups st = (Inr False, st)"
  by (simp add: updateArticleGroups_def resolve_def)

section \<open>Top articles\<close>

lemma zset_range_top: "zset_range xs 0 100 = take 101 xs"
  by (auto simp: zset_range_def Let_def)

lemma map_toArticle_Inr:
  "map_toArticle raw = Inr articles \<Longrightarrow> map toArticle raw = map Inr articles"
  by (induction raw arbitrary: articles) (auto split: sum.splits)

lemma sorted_scores: "sorted z \<Longrightarrow> sorted (map fst (z :: (int \<times> string) list))"
  by (induction z) (auto simp: less_eq_prod_def)

text \<open>
  Claim C9. On one store, \<open>getTopArticles\<close> gives the same result for all counts and all
  groups, the absent group included. When the index \<open>article:score\<close> is the sorted set \<open>z\<close>
  and the call returns articles, the store is unchanged and the articles are the stored
  articles of the members at ranks 0 to 100 of the index read from the highest score
  down, that is of the first 101 members of \<open>z\<close> reversed; their scores descend when \<open>z\<close>
  ascends.
\<close>

theorem getTopArticles_ignores_count_and_group:
  "getTopArticles c1 g1 st = getTopArticles c2 g2 st
   \<and> (st ''article:score'' = Some (RZSet z) \<and> getTopArticles c1 g1 st = (Inr articles, st')
        \<longrightarrow> st' = st
          \<and> map Inr articles = map (stored_article st) (take 101 (map snd (rev z)))
          \<and> (sorted z \<longrightarrow> sorted (rev (map fst (take 101 (rev z))))))"
proof (intro conjI impI)
  show "getTopArticles c1 g1 st = getTopArticles c2 g2 st"
    by (simp add: getTopArticles_def)
next
  assume a: "st ''article:score'' = Some (RZSet z) \<and> getTopArticles c1 g1 st = (Inr articles, st')"
  then have ids: "zRange ''article:score'' 0 100 True st = (Inr (take 101 (map snd (rev z))), st)"
    by (simp add: zRange_def zset_range_top take_map)
  from a have "\<exists>raw st2.
      promise_all (map (\<lambda>x. hGetAll (''article:'' @ x)) (take 101 (map snd (rev z)))) st
        = (Inr raw, st2)
      \<and> (case map_toArticle raw of Inl e \<Rightarrow> reject e | Inr as \<Rightarrow> resolve as) st2
        = (Inr articles, st')"
    unfolding getTopArticles_def await_Inr ids by simp
  then obtain raw st2 where
    1: "promise_all (map (\<lambda>x. hGetAll (''article:'' @ x)) (take 101 (map snd (rev z)))) st
        = (Inr raw, st2)"
    and c: "(case map_toArticle raw of Inl e \<Rightarrow> reject e | Inr as \<Rightarrow> resolve as) st2
        = (Inr articles, st')"
    by blast
  from c have 2: "map_toArticle raw = Inr articles" and s2: "st' = st2"
    by (cases "map_toArticle raw"; simp add: resolve_def reject_def)+
  from promise_all_hGetAll [OF 1] s2 have st': "st' = st"
    and raw: "map (\<lambda>x. fst (hGetAll (''article:'' @ x) st)) (take 101 (map snd (rev z))) = map Inr raw"
    by simp_all
  show "st' = st" by (rule st')
  have "map (stored_article st) (take 101 (map snd (rev z))) = map toArticle raw"
  proof -
    have "map (stored_article st) (take 101 (map snd (rev z)))
          = map (\<lambda>r. case r of Inl e \<Rightarrow> Inl e | Inr obj \<Rightarrow> toArticle obj)
              (map (\<lambda>x. fst (hGetAll (''article:'' @ x) st)) (take 101 (map snd (rev z))))"
      by (simp add: stored_article_def comp_def)
    also have "\<dots> = map toArticle raw"
      unfolding raw by (simp add: comp_def)
    finally show ?thesis .
  qed
  with map_toArticle_Inr [OF 2]
  show "map Inr articles = map (stored_article st) (take 101 (map snd (rev z)))"
    by simp
next
  assume "sorted z"
  then have "sorted (map fst z)" by (rule sorted_scores)
  then have "sorted (drop (length z - 101) (map fst z))"
    by (rule sorted_wrt_drop)
  moreover have "rev (map fst (take 101 (rev z))) = drop (length z - 101) (map fst z)"
    by (simp add: take_rev rev_map drop_map)
  ultimately show "sorted (rev (map fst (take 101 (rev z))))" by simp
qed

lemma getTopArticles_posted:
  "getTopArticles 10 None (snd posted)
   = (Inr [\<lparr> id' = ''1'', title = ''Test Article'', userId = ''user1'',
             link = ''https://test.com/article'', votes = Num 0, timestamp = Num 1730000000 \<rparr>],
      snd posted)"
  by (simp add: posted_eq getTopArticles_def zRange_def zset_range_top await_def resolve_def
      hGetAll_def toArticle_eq parseInt_examples)

text \<open>After the example article is posted, the top 10 of no group and the top 3 of the
  group \<open>technology\<close> are the same list: the article.\<close>

theorem getTopArticles_ignores_count_and_group_witness:
  "getTopArticles 10 None (snd posted) = getTopArticles 3 (Some ''technology'') (snd posted)
   \<and> snd posted ''article:score'' = Some (RZSet [(1730000000, ''1'')])
   \<and> sorted [(1730000000 :: int, ''1'')]
   \<and> getTopArticles 3 (Some ''technology'') (snd posted)
       = (Inr [\<lparr> id' = ''1'', title = ''Test Article'', userId = ''user1'',
             link = ''https://test.com/article'', votes = Num 0, timestamp = Num 1730000000 \<rparr>],
          snd posted)
   \<and> [stored_article (snd posted) ''1'']
       = [Inr \<lparr> id' = ''1'', title = ''Test Article'', userId = ''user1'',
             link = ''https://test.com/article'', votes = Num 0, timestamp = Num 1730000000 \<rparr>]
   \<and> sorted (rev (map fst (take 101 (rev [(1730000000 :: int, ''1'')]))))"
proof -
  let ?a = "\<lparr> id' = ''1'', title = ''Test Article'', userId = ''user1'',
             link = ''https://test.com/article'', votes = Num 0, timestamp = Num 1730000000 \<rparr>"
  have z: "snd posted ''article:score'' = Some (RZSet [(1730000000, ''1'')])"
    by (simp add: posted_eq)
  have s: "sorted [(1730000000 :: int, ''1'')]" by simp
  note t = getTopArticles_ignores_count_and_group
    [of 10 None "snd posted" 3 "Some ''technology''" "[(1730000000, ''1'')]" "[?a]" "snd posted"]
  from t have e: "getTopArticles 10 None (snd posted) = getTopArticles 3 (Some ''technology'') (snd posted)"
    by blast
  from t z getTopArticles_posted
  have "map Inr [?a] = map (stored_article (snd posted)) (take 101 (map snd (rev [(1730000000 :: int, ''1'')])))"
    and "sorted (rev (map fst (take 101 (rev [(1730000000 :: int, ''1'')]))))"
    using s by blast+
  then have "[stored_article (snd posted) ''1''] = [Inr ?a]"
    and "sorted (rev (map fst (take 101 (rev [(1730000000 :: int, ''1'')]))))"
    by simp_all
  with e z s getTopArticles_posted show ?thesis by simp
qed

section \<open>Articles without votes\<close>

text \<open>
  Claim C10. When \<open>postArticle\<close> returns the id of a new article and no vote was recorded
  under that id before (its hash held no \<open>votes\<close> field), then right after the creation,
  and after every sequence of calls of \<open>postArticle\<close>, \<open>postVote\<close>, \<open>updateArticleGroups\<close>
  and \<open>getTopArticles\<close> that follows it, in which every call returns normally and no call
  of \<open>postVote\<close> is for the id, the hash under the id holds no \<open>votes\<close> field, and
  decoding it through the schema, as \<open>getTopArticles\<close> does, gives an article with
  \<open>votes = 0\<close>; right after the creation it is the article created. This holds whatever
  the counter of ids is. The schema maps a missing \<open>votes\<close> field, \<open>undefined\<close>, \<open>null\<close> and
  the empty string to 0 for every object it accepts, and \<open>toArticle\<close> is the schema on
  the object read from the hash. From any store, an article without a \<open>votes\<close> field
  stays so, and decodes to the same article with \<open>votes = 0\<close>, across a vote applied to
  another id and across a call of \<open>postArticle\<close> that returns another id.
\<close>

theorem unvoted_article_has_zero_votes:
  "(postArticle now t l u st = (Inr articleId, st1) \<and> votes_field st articleId = None
      \<and> after cs st1 = Some st2 \<and> votes_on articleId cs = 0
      \<longrightarrow> votes_field st2 articleId = None
        \<and> (\<exists>art. stored_article st2 articleId = Inr art \<and> votes art = Num 0))
   \<and> (postArticle now t l u st = (Inr articleId, st1) \<and> votes_field st articleId = None
      \<longrightarrow> stored_article st1 articleId
            = Inr \<lparr> id' = articleId, title = t, userId = u, link = l, votes = Num 0,
                    timestamp = Num (now div 1000) \<rparr>)
   \<and> (articleSchema obj = Inr a'
        \<and> (obj ''votes'' = None \<or> obj ''votes'' = Some JUndefined \<or> obj ''votes'' = Some JNull
             \<or> obj ''votes'' = Some (JString []))
      \<longrightarrow> votes a' = Num 0)
   \<and> toArticle hash = articleSchema (\<lambda>k. map_option JString (hash k))
   \<and> (stored_article s a1 = Inr a2 \<and> votes_field s a1 = None
        \<and> postVote b v s = (Inr x, s') \<and> b \<noteq> a1
      \<longrightarrow> votes_field s' a1 = None \<and> stored_article s' a1 = Inr a2 \<and> votes a2 = Num 0)
   \<and> (stored_article r a3 = Inr a4 \<and> votes_field r a3 = None
        \<and> postArticle now3 t3 l3 u3 r = (Inr id3, r') \<and> id3 \<noteq> a3
      \<longrightarrow> votes_field r' a3 = None \<and> stored_article r' a3 = Inr a4 \<and> votes a4 = Num 0)"
proof (intro conjI impI)
  assume "postArticle now t l u st = (Inr articleId, st1) \<and> votes_field st articleId = None
      \<and> after cs st1 = Some st2 \<and> votes_on articleId cs = 0"
  then have *: "postArticle now t l u st = (Inr articleId, st1)" "votes_field st articleId = None"
    "after cs st1 = Some st2" "votes_on articleId cs = 0" by simp_all
  from unvoted_created_then_after [OF *]
  show "votes_field st2 articleId = None"
    and "\<exists>art. stored_article st2 articleId = Inr art \<and> votes art = Num 0"
    by simp_all
next
  assume "postArticle now t l u st = (Inr articleId, st1) \<and> votes_field st articleId = None"
  then show "stored_article st1 articleId
            = Inr \<lparr> id' = articleId, title = t, userId = u, link = l, votes = Num 0,
                    timestamp = Num (now div 1000) \<rparr>"
    using postArticle_fresh [of now t l u st articleId st1] by simp
next
  assume "articleSchema obj = Inr a'
        \<and> (obj ''votes'' = None \<or> obj ''votes'' = Some JUndefined \<or> obj ''votes'' = Some JNull
             \<or> obj ''votes'' = Some (JString []))"
  then show "votes a' = Num 0"
    by (auto simp: articleSchema_def z_votes_def split: option.splits)
next
  show "toArticle hash = articleSchema (\<lambda>k. map_option JString (hash k))"
    by (simp add: toArticle_def)
next
  assume a: "stored_article s a1 = Inr a2 \<and> votes_field s a1 = None
        \<and> postVote b v s = (Inr x, s') \<and> b \<noteq> a1"
  then obtain h where h: "s (''article:'' @ a1) = Some (RHash h)" and d: "toArticle h = Inr a2"
    by (auto simp: stored_article_def hGetAll_def toArticle_empty split: option.splits rvalue.splits)
  from a have "postVote b v s = (Inr x, s')" and "a1 \<noteq> b" by auto
  from postVote_other_article [OF this h] have h2: "s' (''article:'' @ a1) = Some (RHash h)" .
  from a h have v: "h ''votes'' = None" by (simp add: votes_field_def)
  show "votes_field s' a1 = None" using h2 v by (simp add: votes_field_def)
  show "stored_article s' a1 = Inr a2" using h2 d by (simp add: stored_article_def hGetAll_def)
  show "votes a2 = Num 0" using toArticle_votes [OF d] v by simp
next
  assume a: "stored_article r a3 = Inr a4 \<and> votes_field r a3 = None
        \<and> postArticle now3 t3 l3 u3 r = (Inr id3, r') \<and> id3 \<noteq> a3"
  then obtain h where h: "r (''article:'' @ a3) = Some (RHash h)" and d: "toArticle h = Inr a4"
    by (auto simp: stored_article_def hGetAll_def toArticle_empty split: option.splits rvalue.splits)
  from a have "postArticle now3 t3 l3 u3 r = (Inr id3, r')" and "a3 \<noteq> id3" by auto
  from postArticle_other_article [OF this h] have h3: "r' (''article:'' @ a3) = Some (RHash h)" .
  from a h have v: "h ''votes'' = None" by (simp add: votes_field_def)
  show "votes_field r' a3 = None" using h3 v by (simp add: votes_field_def)
  show "stored_article r' a3 = Inr a4" using h3 d by (simp add: stored_article_def hGetAll_def)
  show "votes a4 = Num 0" using toArticle_votes [OF d] v by simp
qed

text \<open>The example article right after it is posted; after the top articles are read and a
  second article is posted; after a vote for the id 2. An object whose \<open>votes\<close> is \<open>null\<close>.\<close>

theorem unvoted_article_has_zero_votes_witness:
  "fst posted = Inr ''1'' \<and> votes_field Map.empty ''1'' = None
   \<and> votes_field (snd posted) ''1'' = None
   \<and> stored_article (snd posted) ''1''
       = Inr \<lparr> id' = ''1'', title = ''Test Article'', userId = ''user1'',
             link = ''https://test.com/article'', votes = Num 0, timestamp = Num 1730000000 \<rparr>
   \<and> after [GetTopArticles 10 None,
             PostArticle 1730000001000 ''Second Article'' ''https://test.com/2'' ''user2'']
        (snd posted) = Some (snd posted_second)
   \<and> votes_on ''1'' [GetTopArticles 10 None,
             PostArticle 1730000001000 ''Second Article'' ''https://test.com/2'' ''user2''] = 0
   \<and> fst posted_second = Inr ''2''
   \<and> votes_field (snd posted_second) ''1'' = None
   \<and> stored_article (snd posted_second) ''1''
       = Inr \<lparr> id' = ''1'', title = ''Test Article'', userId = ''user1'',
             link = ''https://test.com/article'', votes = Num 0, timestamp = Num 1730000000 \<rparr>
   \<and> fst voted_other = Inr ()
   \<and> votes_field (snd voted_other) ''1'' = None
   \<and> stored_article (snd voted_other) ''1''
       = Inr \<lparr> id' = ''1'', title = ''Test Article'', userId = ''user1'',
             link = ''https://test.com/article'', votes = Num 0, timestamp = Num 1730000000 \<rparr>
   \<and> articleSchema [''id'' \<mapsto> JString ''1'', ''title'' \<mapsto> JString ''Test Article'',
          ''link'' \<mapsto> JString ''https://test.com/article'', ''userId'' \<mapsto> JString ''user1'',
          ''timestamp'' \<mapsto> JString ''1730000000'', ''votes'' \<mapsto> JNull]
       = Inr \<lparr> id' = ''1'', title = ''Test Article'', userId = ''user1'',
             link = ''https://test.com/article'', votes = Num 0, timestamp = Num 1730000000 \<rparr>"
proof -
  let ?a = "\<lparr> id' = ''1'', title = ''Test Article'', userId = ''user1'',
             link = ''https://test.com/article'', votes = Num 0, timestamp = Num 1730000000 \<rparr>"
  let ?cs = "[GetTopArticles 10 None,
              PostArticle 1730000001000 ''Second Article'' ''https://test.com/2'' ''user2'']"
  let ?obj = "[''id'' \<mapsto> JString ''1'', ''title'' \<mapsto> JString ''Test Article'',
          ''link'' \<mapsto> JString ''https://test.com/article'', ''userId'' \<mapsto> JString ''user1'',
          ''timestamp'' \<mapsto> JString ''1730000000'', ''votes'' \<mapsto> JNull]"
  have cs: "after ?cs (snd posted) = Some (snd posted_second)"
    by (simp add: getTopArticles_posted postArticle_second)
  have n: "votes_on ''1'' ?cs = 0" by simp
  have e: "after [] (snd posted) = Some (snd posted)" "votes_on ''1'' [] = 0" by simp_all
  have 0: "votes_field (snd posted) ''1'' = None"
    using unvoted_article_has_zero_votes [of 1730000000000 "''Test Article''"
        "''https://test.com/article''" "''user1''" Map.empty "''1''" "snd posted" "[]" "snd posted"]
      postArticle_posted votes_field_empty e by blast
  note t = unvoted_article_has_zero_votes
    [of 1730000000000 "''Test Article''" "''https://test.com/article''" "''user1''" Map.empty
        "''1''" "snd posted" ?cs "snd posted_second" ?obj ?a _ "snd posted" "''1''" ?a "''2''"
        "''user2''" "()" "snd voted_other" "snd posted" "''1''" ?a 1730000001000
        "''Second Article''" "''https://test.com/2''" "''user2''" "''2''" "snd posted_second"]
  from t postArticle_posted votes_field_empty cs n
  have 1: "votes_field (snd posted_second) ''1'' = None" by blast
  from t postArticle_posted votes_field_empty
  have 5: "stored_article (snd posted) ''1''
            = Inr \<lparr> id' = ''1'', title = ''Test Article'', userId = ''user1'',
                    link = ''https://test.com/article'', votes = Num 0,
                    timestamp = Num (1730000000000 div 1000) \<rparr>"
    by blast
  have o: "articleSchema ?obj = Inr ?a"
    by (simp add: articleSchema_def z_string_def z_votes_def parseInt_examples)
  from t o have 2: "votes ?a = Num 0" by simp
  have v: "postVote ''2'' ''user2'' (snd posted) = (Inr (), snd voted_other)"
    by (simp add: voted_other_def [symmetric] voted_other_eq)
  from t stored_article_posted 0 v
  have 3: "votes_field (snd voted_other) ''1'' = None \<and> stored_article (snd voted_other) ''1'' = Inr ?a"
    by simp
  from t stored_article_posted 0 postArticle_second
  have 4: "votes_field (snd posted_second) ''1'' = None
           \<and> stored_article (snd posted_second) ''1'' = Inr ?a"
    by simp
  have f: "fst voted_other = Inr ()" "fst posted_second = Inr ''2''"
    by (simp_all add: voted_other_eq posted_second_eq)
  from 0 1 5 2 3 4 o cs n f fst_posted votes_field_empty show ?thesis
    by (intro conjI) simp_all
qed

end
